theory Spec2Isabelle
  imports Main "HOL-Library.AList" "HOL-Library.Multiset"
begin

section \<open>Data model (core/component.py, core/workflow.py)\<close>

text \<open>
  Python dictionaries keep insertion order, and the code iterates over them, so every
  dictionary is an association list: \<open>AList.update\<close> overwrites in place or appends
  at the end (as \<^verbatim>\<open>d[k] = v\<close> does), \<open>AList.delete\<close> is \<^verbatim>\<open>del d[k]\<close>, \<open>map_of\<close> is
  the lookup. Wall-clock fields (\<^verbatim>\<open>execution_time\<close>) and the logger are left out.
\<close>

type_synonym 'v dict = "(string \<times> 'v) list"

datatype ComponentStatus = PENDING | RUNNING | COMPLETED | FAILED | SKIPPED

datatype WorkflowStatus = WF_PENDING | WF_RUNNING | WF_COMPLETED | WF_FAILED | WF_CANCELLED

record 'v ComponentResult =
  res_status :: ComponentStatus
  res_data :: 'v
  res_metadata :: "'v dict"
  res_errors :: "string list"

text \<open>
  What one call of the abstract \<^verbatim>\<open>Component.execute\<close> does: it returns a result, or it
  raises an exception \<open>e\<close>, recorded by \<^verbatim>\<open>str(e)\<close>: \<open>Raises\<close> when \<open>e\<close> is an instance of
  \<^verbatim>\<open>Exception\<close>, \<open>RaisesBaseException\<close> when it is not (\<^verbatim>\<open>asyncio.CancelledError\<close>,
  \<^verbatim>\<open>SystemExit\<close>, \<^verbatim>\<open>KeyboardInterrupt\<close>, or a class of the step's own derived from
  \<^verbatim>\<open>BaseException\<close> only).
\<close>

datatype 'v exec_outcome =
    Returns "'v ComponentResult"
  | Raises string
  | RaisesBaseException string

text \<open>An exception on its way out of the loop of a run, with \<^verbatim>\<open>str(e)\<close>: an instance of
  \<^verbatim>\<open>Exception\<close>, which the \<^verbatim>\<open>except Exception\<close> clause handles, or not.\<close>

datatype raised = ExceptionRaised string | BaseExceptionRaised string

text \<open>
  A component: the fields of \<^verbatim>\<open>Component.__init__\<close> and its two abstract methods.
  \<^verbatim>\<open>validate_config\<close> reads the component's configuration and answers a boolean; a
  version that is not pure may also leave a changed configuration behind.
\<close>

record ('v, 'c) Component =
  name :: string
  config :: 'c
  comp_status :: ComponentStatus
  dependencies :: "string list"
  outputs :: "string list"
  execute_impl :: "'v dict \<Rightarrow> 'v exec_outcome"
  validate_config :: "'c \<Rightarrow> bool \<times> 'c"

record ('v, 'c) Workflow =
  wf_name :: string
  components :: "('v, 'c) Component dict"
  execution_order :: "string list"
  wf_status :: WorkflowStatus

record 'v WorkflowResult =
  wr_status :: WorkflowStatus
  component_results :: "'v ComponentResult dict"
  wr_errors :: "string list"

text \<open>
  Every \<^verbatim>\<open>raise ValueError(...)\<close> of workflow.py, one constructor for each message, with
  the name the message quotes; \<open>KeyError\<close> is a failed \<^verbatim>\<open>self.components[...]\<close>.
\<close>

datatype error =
    AlreadyExists string
  | NotFound string
  | SourceNotFound string
  | TargetNotFound string
  | CircularDependency string
  | KeyError string

definition Workflow_init :: "string \<Rightarrow> ('v, 'c) Workflow" where
  "Workflow_init n =
     \<lparr>wf_name = n, components = [], execution_order = [], wf_status = WF_PENDING\<rparr>"

definition keys :: "'a dict \<Rightarrow> string list" where
  "keys d = map fst d"

section \<open>Component edge lists\<close>

definition add_dependency :: "string \<Rightarrow> ('v, 'c) Component \<Rightarrow> ('v, 'c) Component" where
  "add_dependency dependency c =
     (if dependency \<notin> set (dependencies c)
      then c\<lparr>dependencies := dependencies c @ [dependency]\<rparr> else c)"

definition add_output :: "string \<Rightarrow> ('v, 'c) Component \<Rightarrow> ('v, 'c) Component" where
  "add_output output c =
     (if output \<notin> set (outputs c) then c\<lparr>outputs := outputs c @ [output]\<rparr> else c)"

text \<open>\<^verbatim>\<open>Component.__init__\<close>, with the two methods a subclass supplies.\<close>

definition Component_init ::
    "string \<Rightarrow> 'c \<Rightarrow> ('v dict \<Rightarrow> 'v exec_outcome) \<Rightarrow> ('c \<Rightarrow> bool \<times> 'c) \<Rightarrow> ('v, 'c) Component" where
  "Component_init n cfg exec vc =
     \<lparr>name = n, config = cfg, comp_status = PENDING, dependencies = [], outputs = [],
      execute_impl = exec, validate_config = vc\<rparr>"

section \<open>Execution order: depth-first topological sort\<close>

text \<open>
  \<^verbatim>\<open>visit\<close> of \<^verbatim>\<open>_update_execution_order\<close> (the interpreter's recursion limit is not
  modelled). The state is \<open>(visited, order)\<close>;
  \<open>temp\<close> is \<^verbatim>\<open>temp_visited\<close>: a call adds its node before the loop over the
  dependencies and removes it afterwards, so on return it is what it was on entry, and
  it is passed down as an argument. \<open>visit_deps\<close> is the \<^verbatim>\<open>for dependency in ...\<close> loop.
\<close>

function visit ::
    "('v, 'c) Component dict \<Rightarrow> string set \<Rightarrow> string set \<times> string list \<Rightarrow> string
       \<Rightarrow> error + (string set \<times> string list)"
  and visit_deps ::
    "('v, 'c) Component dict \<Rightarrow> string set \<Rightarrow> string set \<times> string list \<Rightarrow> string list
       \<Rightarrow> error + (string set \<times> string list)"
where
  "visit comps temp st node =
     (if node \<in> temp then Inl (CircularDependency node)
      else if node \<in> fst st then Inr st
      else (case map_of comps node of
              None \<Rightarrow> Inl (KeyError node)
            | Some c \<Rightarrow>
                (case visit_deps comps (insert node temp) st (dependencies c) of
                   Inl e \<Rightarrow> Inl e
                 | Inr st' \<Rightarrow> Inr (insert node (fst st'), snd st' @ [node]))))"
| "visit_deps comps temp st [] = Inr st"
| "visit_deps comps temp st (d # ds) =
     (if d \<in> set (keys comps)
      then (case visit comps temp st d of
              Inl e \<Rightarrow> Inl e
            | Inr st' \<Rightarrow> visit_deps comps temp st' ds)
      else visit_deps comps temp st ds)"
  by pat_completeness auto

termination
proof (relation "measures
    [\<lambda>x. case x of Inl (comps, temp, st, node) \<Rightarrow> card (set (keys comps) - temp)
               | Inr (comps, temp, st, ds) \<Rightarrow> card (set (keys comps) - temp),
     \<lambda>x. case x of Inl (comps, temp, st, node) \<Rightarrow> 0
               | Inr (comps, temp, st, ds) \<Rightarrow> Suc (length ds)]", goal_cases)
  case 1
  show ?case by simp
next
  case (2 comps temp st node c)
  from 2(3) have "node \<in> set (keys comps)"
    by (auto simp: keys_def dest: map_of_SomeD intro: rev_image_eqI)
  with 2(1) have "set (keys comps) - insert node temp \<subset> set (keys comps) - temp"
    by auto
  then have "card (set (keys comps) - insert node temp) < card (set (keys comps) - temp)"
    by (intro psubset_card_mono) auto
  then show ?case by simp
next
  case 3
  then show ?case by simp
next
  case 4
  then show ?case by simp
next
  case 5
  then show ?case by simp
qed

declare visit.simps [simp del]

text \<open>The loop \<^verbatim>\<open>for component_name in self.components\<close>, every visit starting with
  an empty \<^verbatim>\<open>temp_visited\<close>.\<close>

fun visit_all ::
    "('v, 'c) Component dict \<Rightarrow> string set \<times> string list \<Rightarrow> string list
       \<Rightarrow> error + (string set \<times> string list)" where
  "visit_all comps st [] = Inr st"
| "visit_all comps st (n # ns) =
     (if n \<notin> fst st
      then (case visit comps {} st n of
              Inl e \<Rightarrow> Inl e
            | Inr st' \<Rightarrow> visit_all comps st' ns)
      else visit_all comps st ns)"

text \<open>
  \<^verbatim>\<open>_update_execution_order\<close>: the order is assigned only when no visit raised; a
  raise leaves the workflow as it was on entry.
\<close>

definition update_execution_order ::
    "('v, 'c) Workflow \<Rightarrow> (error + unit) \<times> ('v, 'c) Workflow" where
  "update_execution_order w =
     (case visit_all (components w) ({}, []) (keys (components w)) of
        Inl e \<Rightarrow> (Inl e, w)
      | Inr st \<Rightarrow> (Inr (), w\<lparr>execution_order := snd st\<rparr>))"

section \<open>Graph operations\<close>

text \<open>
  Each operation returns what the call did (\<open>Inl\<close> the exception raised, \<open>Inr ()\<close> a
  normal return) together with the workflow as the call left it, which for a raise is
  the workflow with every mutation made before the raise.
\<close>

definition add_component ::
    "('v, 'c) Component \<Rightarrow> ('v, 'c) Workflow \<Rightarrow> (error + unit) \<times> ('v, 'c) Workflow" where
  "add_component component w =
     (if name component \<in> set (keys (components w))
      then (Inl (AlreadyExists (name component)), w)
      else update_execution_order
             (w\<lparr>components := AList.update (name component) component (components w)\<rparr>))"

definition remove_component ::
    "string \<Rightarrow> ('v, 'c) Workflow \<Rightarrow> (error + unit) \<times> ('v, 'c) Workflow" where
  "remove_component n w =
     (if n \<notin> set (keys (components w))
      then (Inl (NotFound n), w)
      else update_execution_order (w\<lparr>components := AList.delete n (components w)\<rparr>))"

definition connect_components ::
    "string \<Rightarrow> string \<Rightarrow> ('v, 'c) Workflow \<Rightarrow> (error + unit) \<times> ('v, 'c) Workflow" where
  "connect_components source target w =
     (if source \<notin> set (keys (components w)) then (Inl (SourceNotFound source), w)
      else if target \<notin> set (keys (components w)) then (Inl (TargetNotFound target), w)
      else
        let comps1 = AList.map_entry target (add_dependency source) (components w);
            comps2 = AList.map_entry source (add_output target) comps1
        in update_execution_order (w\<lparr>components := comps2\<rparr>))"

section \<open>Input resolution\<close>

text \<open>\<^verbatim>\<open>_prepare_component_inputs\<close>: the loop over the dependencies, filling \<^verbatim>\<open>inputs\<close>.\<close>

fun collect_inputs :: "'v dict \<Rightarrow> 'v dict \<Rightarrow> string list \<Rightarrow> 'v dict" where
  "collect_inputs available_outputs inputs [] = inputs"
| "collect_inputs available_outputs inputs (dependency # ds) =
     (case map_of available_outputs dependency of
        Some v \<Rightarrow> collect_inputs available_outputs (AList.update dependency v inputs) ds
      | None \<Rightarrow> collect_inputs available_outputs inputs ds)"

definition prepare_component_inputs :: "('v, 'c) Component \<Rightarrow> 'v dict \<Rightarrow> 'v dict" where
  "prepare_component_inputs component available_outputs =
     collect_inputs available_outputs [] (dependencies component)"

section \<open>Execution engine\<close>

text \<open>
  \<^verbatim>\<open>component_outputs = initial_inputs or {}\<close> binds a reference: to the caller's own
  dictionary when that is given and not empty, to a new dictionary otherwise. The two
  objects are the cells of a small store, and every write of the run goes through the
  reference.
\<close>

datatype table_ref = CallerTable | FreshTable

text \<open>
  The state of one run: \<^verbatim>\<open>self\<close>, \<^verbatim>\<open>result\<close>, the store of output tables, and two logs, in
  order: every \<^verbatim>\<open>component.execute(component_inputs)\<close> call made (what a recording
  collaborator would see), and every \<^verbatim>\<open>_prepare_component_inputs\<close> call made, as the name
  of the step, the output table as it was at that moment, and the inputs built from it.
  \<open>rs_propagated\<close> is the exception that leaves \<^verbatim>\<open>execute\<close>, if one does; then no
  \<^verbatim>\<open>WorkflowResult\<close> is returned, and \<open>rs_result\<close> is the local object as the exception
  left it.
\<close>

record ('v, 'c) run_state =
  rs_self :: "('v, 'c) Workflow"
  rs_result :: "'v WorkflowResult"
  rs_tables :: "table_ref \<Rightarrow> 'v dict"
  rs_calls :: "(string \<times> 'v dict) list"
  rs_resolved :: "(string \<times> 'v dict \<times> 'v dict) list"
  rs_propagated :: "string option"

text \<open>\<^verbatim>\<open>'{name}'\<close> inside an f-string: the name between single quotes.\<close>

definition quoted :: "string \<Rightarrow> string" where
  "quoted s = [CHR 0x27] @ s @ [CHR 0x27]"

text \<open>
  \<^verbatim>\<open>str(KeyError(name))\<close> is \<^verbatim>\<open>repr(name)\<close>. A name is a string over the code points
  below 256, and \<open>py_repr\<close> is \<^verbatim>\<open>repr\<close> on such strings: double quotes around it when it
  has a single quote and no double quote, single quotes otherwise; a backslash before the
  enclosing quote and before a backslash; \<^verbatim>\<open>\t\<close>, \<^verbatim>\<open>\n\<close>, \<^verbatim>\<open>\r\<close>; and \<^verbatim>\<open>\xhh\<close> for a
  code point that is not printable (below 32, 127 to 160, and 173).
\<close>

definition hex_digit :: "nat \<Rightarrow> char" where
  "hex_digit n = ''0123456789abcdef'' ! (n mod 16)"

definition repr_char :: "char \<Rightarrow> char \<Rightarrow> string" where
  "repr_char quote ch =
     (let n = (of_char ch :: nat) in
      if ch = quote \<or> ch = CHR 0x5C then [CHR 0x5C, ch]
      else if ch = CHR 0x09 then [CHR 0x5C, CHR ''t'']
      else if ch = CHR 0x0A then [CHR 0x5C, CHR ''n'']
      else if ch = CHR 0x0D then [CHR 0x5C, CHR ''r'']
      else if n < 32 \<or> (127 \<le> n \<and> n \<le> 160) \<or> n = 173
      then [CHR 0x5C, CHR ''x'', hex_digit (n div 16), hex_digit n]
      else [ch])"

definition py_repr :: "string \<Rightarrow> string" where
  "py_repr s =
     (let quote = (if CHR 0x27 \<in> set s \<and> CHR 0x22 \<notin> set s then CHR 0x22 else CHR 0x27)
      in [quote] @ concat (map (repr_char quote) s) @ [quote])"

definition set_running :: "string \<Rightarrow> ('v, 'c) Workflow \<Rightarrow> ('v, 'c) Workflow" where
  "set_running n w =
     w\<lparr>components := AList.map_entry n (\<lambda>c. c\<lparr>comp_status := RUNNING\<rparr>) (components w)\<rparr>"

definition record_result ::
    "string \<Rightarrow> 'v ComponentResult \<Rightarrow> 'v WorkflowResult \<Rightarrow> 'v WorkflowResult" where
  "record_result n r res = res\<lparr>component_results := AList.update n r (component_results res)\<rparr>"

definition store_output ::
    "table_ref \<Rightarrow> string \<Rightarrow> 'v \<Rightarrow> (table_ref \<Rightarrow> 'v dict) \<Rightarrow> (table_ref \<Rightarrow> 'v dict)" where
  "store_output ref n v tables = tables(ref := AList.update n v (tables ref))"

text \<open>
  The body of the \<^verbatim>\<open>for component_name in self.execution_order\<close> loop inside the
  \<^verbatim>\<open>try\<close>. \<open>Inl e\<close> is an exception leaving the loop (a step that raised, or the
  \<^verbatim>\<open>KeyError\<close> of \<^verbatim>\<open>self.components[component_name]\<close>); \<open>Inr ()\<close> is the loop ending, by
  exhaustion or by \<^verbatim>\<open>break\<close>.
\<close>

fun run_loop ::
    "table_ref \<Rightarrow> ('v, 'c) run_state \<Rightarrow> string list \<Rightarrow> (raised + unit) \<times> ('v, 'c) run_state"
where
  "run_loop ref s [] = (Inr (), s)"
| "run_loop ref s (component_name # rest) =
     (case map_of (components (rs_self s)) component_name of
        None \<Rightarrow> (Inl (ExceptionRaised (py_repr component_name)), s)
      | Some component \<Rightarrow>
          (let s1 = s\<lparr>rs_self := set_running component_name (rs_self s)\<rparr>;
               component_inputs = prepare_component_inputs component (rs_tables s1 ref);
               s2 = s1\<lparr>rs_resolved := rs_resolved s1 @
                           [(component_name, rs_tables s1 ref, component_inputs)],
                       rs_calls := rs_calls s1 @ [(component_name, component_inputs)]\<rparr>
           in (case execute_impl component component_inputs of
                 Raises msg \<Rightarrow> (Inl (ExceptionRaised msg), s2)
               | RaisesBaseException msg \<Rightarrow> (Inl (BaseExceptionRaised msg), s2)
               | Returns component_result \<Rightarrow>
                   (let s3 = s2\<lparr>rs_result :=
                               record_result component_name component_result (rs_result s2)\<rparr>
                    in if res_status component_result = FAILED
                       then (Inr (),
                             s3\<lparr>rs_result := (rs_result s3)
                                   \<lparr>wr_errors := wr_errors (rs_result s3) @ res_errors component_result,
                                    wr_status := WF_FAILED\<rparr>,
                                rs_self := (rs_self s3)\<lparr>wf_status := WF_FAILED\<rparr>\<rparr>)
                       else run_loop ref
                              (s3\<lparr>rs_tables := store_output ref component_name
                                      (res_data component_result) (rs_tables s3)\<rparr>)
                              rest))))"

definition truthy :: "'v dict option \<Rightarrow> bool" where
  "truthy initial_inputs = (case initial_inputs of None \<Rightarrow> False | Some m \<Rightarrow> m \<noteq> [])"

definition initial_run_state :: "('v, 'c) Workflow \<Rightarrow> 'v dict option \<Rightarrow> ('v, 'c) run_state" where
  "initial_run_state w initial_inputs =
     \<lparr>rs_self = w\<lparr>wf_status := WF_RUNNING\<rparr>,
      rs_result = \<lparr>wr_status = WF_RUNNING, component_results = [], wr_errors = []\<rparr>,
      rs_tables = (\<lambda>r. case r of
                     CallerTable \<Rightarrow> (case initial_inputs of Some m \<Rightarrow> m | None \<Rightarrow> [])
                   | FreshTable \<Rightarrow> []),
      rs_calls = [], rs_resolved = [], rs_propagated = None\<rparr>"

text \<open>
  \<^verbatim>\<open>Workflow.execute\<close>. The \<^verbatim>\<open>except Exception\<close> clause turns an exception of the loop
  that is an instance of \<^verbatim>\<open>Exception\<close> into a failed result; any other exception leaves
  \<^verbatim>\<open>execute\<close> with everything as it was when it was raised. The value is the final run
  state, from which the exception that propagated (\<open>rs_propagated\<close>) or else the
  \<^verbatim>\<open>WorkflowResult\<close> returned (\<open>rs_result\<close>), the workflow afterwards (\<open>rs_self\<close>), the
  calls made and the caller's dictionary afterwards are read.
\<close>

definition execute :: "('v, 'c) Workflow \<Rightarrow> 'v dict option \<Rightarrow> ('v, 'c) run_state" where
  "execute w initial_inputs =
     (let component_outputs = (if truthy initial_inputs then CallerTable else FreshTable)
      in case run_loop component_outputs (initial_run_state w initial_inputs)
                (execution_order w) of
           (Inr _, s) \<Rightarrow>
             if wf_status (rs_self s) = WF_RUNNING
             then s\<lparr>rs_self := (rs_self s)\<lparr>wf_status := WF_COMPLETED\<rparr>,
                    rs_result := (rs_result s)\<lparr>wr_status := WF_COMPLETED\<rparr>\<rparr>
             else s
         | (Inl (ExceptionRaised msg), s) \<Rightarrow>
             s\<lparr>rs_self := (rs_self s)\<lparr>wf_status := WF_FAILED\<rparr>,
               rs_result := (rs_result s)\<lparr>wr_status := WF_FAILED,
                                           wr_errors := wr_errors (rs_result s) @ [msg]\<rparr>\<rparr>
         | (Inl (BaseExceptionRaised msg), s) \<Rightarrow> s\<lparr>rs_propagated := Some msg\<rparr>)"

text \<open>The caller's \<^verbatim>\<open>initial_inputs\<close> object after the call (none when omitted).\<close>

definition caller_inputs_after :: "'v dict option \<Rightarrow> ('v, 'c) run_state \<Rightarrow> 'v dict option" where
  "caller_inputs_after initial_inputs s = map_option (\<lambda>_. rs_tables s CallerTable) initial_inputs"

section \<open>Validation\<close>

definition missing_dependency_message :: "string \<Rightarrow> string \<Rightarrow> string" where
  "missing_dependency_message component_name dependency =
     ''Component '' @ quoted component_name @ '' depends on missing component ''
       @ quoted dependency"

definition invalid_configuration_message :: "string \<Rightarrow> string" where
  "invalid_configuration_message component_name =
     ''Component '' @ quoted component_name @ '' has invalid configuration''"

text \<open>The first loop of \<^verbatim>\<open>validate\<close>: it only reads.\<close>

definition missing_dependencies :: "('v, 'c) Component dict \<Rightarrow> string list" where
  "missing_dependencies comps =
     concat (map (\<lambda>(component_name, component).
                    map (missing_dependency_message component_name)
                        (filter (\<lambda>dependency. dependency \<notin> set (keys comps))
                                (dependencies component)))
                 comps)"

text \<open>The second loop: each component's \<^verbatim>\<open>validate_config()\<close> is called once, and
  whatever it does to the component's configuration stays.\<close>

fun validate_configs ::
    "('v, 'c) Component dict \<Rightarrow> string list \<times> ('v, 'c) Component dict" where
  "validate_configs [] = ([], [])"
| "validate_configs ((component_name, component) # rest) =
     (case validate_config component (config component) of
        (ok, config') \<Rightarrow>
          (case validate_configs rest of
             (errors, rest') \<Rightarrow>
               ((if \<not> ok then [invalid_configuration_message component_name] else []) @ errors,
                (component_name, component\<lparr>config := config'\<rparr>) # rest')))"

definition validate :: "('v, 'c) Workflow \<Rightarrow> string list \<times> ('v, 'c) Workflow" where
  "validate w =
     (case validate_configs (components w) of
        (errors2, comps') \<Rightarrow> (missing_dependencies (components w) @ errors2, w\<lparr>components := comps'\<rparr>))"

section \<open>Notions the properties are stated with\<close>

text \<open>Graph states reached from a new workflow by graph operations that returned
  normally, and by runs.\<close>

inductive reachable :: "('v, 'c) Workflow \<Rightarrow> bool" where
  reachable_init: "reachable (Workflow_init n)"
| reachable_add: "reachable w \<Longrightarrow> add_component c w = (Inr (), w') \<Longrightarrow> reachable w'"
| reachable_remove: "reachable w \<Longrightarrow> remove_component n w = (Inr (), w') \<Longrightarrow> reachable w'"
| reachable_connect:
    "reachable w \<Longrightarrow> connect_components source target w = (Inr (), w') \<Longrightarrow> reachable w'"
| reachable_run: "reachable w \<Longrightarrow> reachable (rs_self (execute w initial_inputs))"

text \<open>\<open>a\<close> occurs in the list, and strictly before the first \<open>b\<close>, which occurs too
  (\<^verbatim>\<open>order.index(a) < order.index(b)\<close>).\<close>

fun appears_before :: "'a \<Rightarrow> 'a \<Rightarrow> 'a list \<Rightarrow> bool" where
  "appears_before a b [] = False"
| "appears_before a b (x # xs) =
     (if x = b then False else if x = a then b \<in> set xs else appears_before a b xs)"

text \<open>The dependency edges between components of the graph: \<open>(a, b)\<close> when \<open>b\<close> is a
  component that lists \<open>a\<close> as a dependency and \<open>a\<close> is a component too.\<close>

definition dep_edges :: "('v, 'c) Component dict \<Rightarrow> (string \<times> string) set" where
  "dep_edges comps =
     {(a, b). a \<in> set (keys comps) \<and> (\<exists>c. map_of comps b = Some c \<and> a \<in> set (dependencies c))}"

definition cyclic :: "('v, 'c) Component dict \<Rightarrow> bool" where
  "cyclic comps = (\<exists>n. (n, n) \<in> (dep_edges comps)\<^sup>+)"

text \<open>Dependencies and outputs mirror each other on the components present.\<close>

definition mirrored :: "('v, 'c) Component dict \<Rightarrow> bool" where
  "mirrored comps =
     (\<forall>(a, ca) \<in> set comps. \<forall>(b, cb) \<in> set comps.
        (a \<in> set (dependencies cb)) = (b \<in> set (outputs ca)))"

text \<open>Every dependency edge between present components goes forward in the list.\<close>

definition topological :: "('v, 'c) Component dict \<Rightarrow> string list \<Rightarrow> bool" where
  "topological comps ord =
     (\<forall>a b cb. map_of comps b = Some cb \<longrightarrow> a \<in> set (dependencies cb) \<longrightarrow>
         a \<in> set (keys comps) \<longrightarrow> appears_before a b ord)"

text \<open>The invariant of the traversal state \<open>(visited, order)\<close>.\<close>

definition order_inv :: "('v, 'c) Component dict \<Rightarrow> string set \<times> string list \<Rightarrow> bool" where
  "order_inv comps st =
     (fst st = set (snd st) \<and> distinct (snd st) \<and> set (snd st) \<subseteq> set (keys comps) \<and>
      (\<forall>n c d. n \<in> set (snd st) \<longrightarrow> map_of comps n = Some c \<longrightarrow> d \<in> set (dependencies c) \<longrightarrow>
          d \<in> set (keys comps) \<longrightarrow> appears_before d n (snd st)))"

text \<open>What a call of a step's \<^verbatim>\<open>execute\<close> does, looked up by name.\<close>

definition exec_of :: "('v, 'c) Workflow \<Rightarrow> string \<Rightarrow> ('v dict \<Rightarrow> 'v exec_outcome) option" where
  "exec_of w n = map_option execute_impl (map_of (components w) n)"

text \<open>
  The state of a run at the moment the \<^verbatim>\<open>execute\<close> of step \<open>n\<close> is invoked, and what a
  returned result, failed or not, makes of it.
\<close>

definition called ::
    "table_ref \<Rightarrow> string \<Rightarrow> ('v, 'c) Component \<Rightarrow> ('v, 'c) run_state \<Rightarrow> ('v, 'c) run_state" where
  "called ref n c s =
     s\<lparr>rs_self := set_running n (rs_self s),
       rs_resolved := rs_resolved s @
         [(n, rs_tables s ref, prepare_component_inputs c (rs_tables s ref))],
       rs_calls := rs_calls s @ [(n, prepare_component_inputs c (rs_tables s ref))]\<rparr>"

definition recorded_failed ::
    "string \<Rightarrow> 'v ComponentResult \<Rightarrow> ('v, 'c) run_state \<Rightarrow> ('v, 'c) run_state" where
  "recorded_failed n r s =
     s\<lparr>rs_result := (record_result n r (rs_result s))
          \<lparr>wr_errors := wr_errors (rs_result s) @ res_errors r, wr_status := WF_FAILED\<rparr>,
       rs_self := (rs_self s)\<lparr>wf_status := WF_FAILED\<rparr>\<rparr>"

definition recorded_ok ::
    "table_ref \<Rightarrow> string \<Rightarrow> 'v ComponentResult \<Rightarrow> ('v, 'c) run_state \<Rightarrow> ('v, 'c) run_state" where
  "recorded_ok ref n r s =
     s\<lparr>rs_result := record_result n r (rs_result s),
       rs_tables := store_output ref n (res_data r) (rs_tables s)\<rparr>"

text \<open>
  The input resolutions logged by a run, read against the output table: the first was
  made on the table \<open>t\<close>, and each later one on the table of the one before with the data
  returned by that step (a result that is not failed) stored under its name. \<open>ex\<close> looks
  up a step's \<^verbatim>\<open>execute\<close>.
\<close>

fun tables_chain ::
    "(string \<Rightarrow> ('v dict \<Rightarrow> 'v exec_outcome) option) \<Rightarrow> 'v dict
       \<Rightarrow> (string \<times> 'v dict \<times> 'v dict) list \<Rightarrow> bool" where
  "tables_chain ex t [] = True"
| "tables_chain ex t ((n, table, inputs) # rest) =
     (table = t \<and>
      (rest = [] \<or>
       (\<exists>f r. ex n = Some f \<and> f inputs = Returns r \<and> res_status r \<noteq> FAILED \<and>
              tables_chain ex (AList.update n (res_data r) t) rest)))"

section \<open>Sample components and graphs\<close>

text \<open>Steps over natural-number payloads, in the manner of the test suite's
  \<^verbatim>\<open>MockComponent\<close>: one that returns a completed result carrying \<open>v\<close>, one that returns
  a failed result, one that raises \<^verbatim>\<open>Exception(msg)\<close>.\<close>

definition succeeding :: "string \<Rightarrow> nat \<Rightarrow> (nat, unit) Component" where
  "succeeding n v =
     Component_init n ()
       (\<lambda>inputs. Returns \<lparr>res_status = COMPLETED, res_data = v, res_metadata = [], res_errors = []\<rparr>)
       (\<lambda>c. (True, c))"

definition failing :: "string \<Rightarrow> string \<Rightarrow> (nat, unit) Component" where
  "failing n msg =
     Component_init n ()
       (\<lambda>inputs. Returns \<lparr>res_status = FAILED, res_data = 0, res_metadata = [], res_errors = [msg]\<rparr>)
       (\<lambda>c. (True, c))"

definition raising :: "string \<Rightarrow> string \<Rightarrow> (nat, unit) Component" where
  "raising n msg = Component_init n () (\<lambda>inputs. Raises msg) (\<lambda>c. (True, c))"

text \<open>A step whose \<^verbatim>\<open>execute\<close> raises \<^verbatim>\<open>asyncio.CancelledError(msg)\<close>, which since
  Python 3.8 derives from \<^verbatim>\<open>BaseException\<close> and not from \<^verbatim>\<open>Exception\<close>.\<close>

definition cancelled :: "string \<Rightarrow> string \<Rightarrow> (nat, unit) Component" where
  "cancelled n msg = Component_init n () (\<lambda>inputs. RaisesBaseException msg) (\<lambda>c. (True, c))"

text \<open>The graph of \<^verbatim>\<open>test_connect_components\<close>: two steps, \<open>A\<close> feeding \<open>B\<close>.\<close>

definition chain2 :: "(nat, unit) Workflow" where
  "chain2 = snd (connect_components ''A'' ''B''
              (snd (add_component (succeeding ''B'' 2)
                (snd (add_component (succeeding ''A'' 1) (Workflow_init ''w''))))))"

text \<open>The same graph after \<open>A\<close> is removed and a new step named \<open>A\<close> is added.\<close>

definition chain2_readd :: "(nat, unit) Workflow" where
  "chain2_readd =
     snd (add_component (succeeding ''A'' 3) (snd (remove_component ''A'' chain2)))"


definition raising_chain :: "(nat, unit) Workflow" where
  "raising_chain = snd (connect_components ''A'' ''B''
              (snd (add_component (succeeding ''B'' 2)
                (snd (add_component (raising ''A'' ''boom'') (Workflow_init ''w''))))))"

definition cancelled_chain :: "(nat, unit) Workflow" where
  "cancelled_chain = snd (connect_components ''A'' ''B''
              (snd (add_component (succeeding ''B'' 2)
                (snd (add_component (cancelled ''A'' ''stop'') (Workflow_init ''w''))))))"

text \<open>Three steps in a chain: \<open>A\<close> feeds \<open>B\<close>, \<open>B\<close> feeds \<open>C\<close>.\<close>

definition chain3 :: "(nat, unit) Workflow" where
  "chain3 = snd (connect_components ''B'' ''C''
             (snd (connect_components ''A'' ''B''
               (snd (add_component (succeeding ''C'' 3)
                 (snd (add_component (succeeding ''B'' 2)
                   (snd (add_component (succeeding ''A'' 1) (Workflow_init ''w''))))))))))"

text \<open>The chain of three steps after \<open>B\<close> is removed: \<open>C\<close> still lists \<open>B\<close> as a dependency.\<close>

definition chain3_gap :: "(nat, unit) Workflow" where
  "chain3_gap = snd (remove_component ''B'' chain3)"

section \<open>Input resolution: properties\<close>

lemma map_of_collect_inputs:
  "map_of (collect_inputs av inputs ds) k =
     (if k \<in> set ds \<and> map_of av k \<noteq> None then map_of av k else map_of inputs k)"
  by (induction ds arbitrary: inputs) (auto simp: update_conv' split: option.splits)

text \<open>The mapping \<^verbatim>\<open>_prepare_component_inputs\<close> builds is the table of available outputs
  restricted to the dependencies of the component.\<close>

lemma map_of_prepare_component_inputs:
  "map_of (prepare_component_inputs component available_outputs) k =
     (if k \<in> set (dependencies component) then map_of available_outputs k else None)"
  by (simp add: prepare_component_inputs_def map_of_collect_inputs)

section \<open>The loop of a run: basic facts\<close>

text \<open>Marking a step as running changes its status and nothing the loop reads.\<close>

lemma map_of_set_running:
  "map_of (components (set_running m w)) n =
     map_option (\<lambda>c. if n = m then c\<lparr>comp_status := RUNNING\<rparr> else c) (map_of (components w) n)"
  by (cases "map_of (components w) n")
     (auto simp: set_running_def map_of_map_entry option.map_ident split: option.splits)

lemma exec_of_set_running [simp]: "exec_of (set_running m w) = exec_of w"
  by (rule ext) (auto simp: exec_of_def map_of_set_running option.map_comp o_def
       intro!: option.map_cong)

lemma exec_of_wf_status [simp]: "exec_of (w\<lparr>wf_status := x\<rparr>) = exec_of w"
  by (rule ext) (simp add: exec_of_def)

lemma exec_of_Some: "map_of (components w) n = Some c \<Longrightarrow> exec_of w n = Some (execute_impl c)"
  by (simp add: exec_of_def)

lemma set_running_frame [simp]:
  "wf_status (set_running n w) = wf_status w"
  "execution_order (set_running n w) = execution_order w"
  by (simp_all add: set_running_def)

lemma map_fst_map_entry: "map fst (AList.map_entry k h xs) = map fst xs"
  by (induction xs) auto

lemma keys_set_running [simp]: "keys (components (set_running m w)) = keys (components w)"
  by (simp add: set_running_def keys_def map_fst_map_entry)

lemma deps_set_running [simp]:
  "map_option dependencies (map_of (components (set_running m w)) n) =
   map_option dependencies (map_of (components w) n)"
  by (cases "map_of (components w) n") (simp_all add: map_of_set_running)

text \<open>The three states of a round, read field by field.\<close>

lemma called_simps [simp]:
  "rs_self (called ref n c s) = set_running n (rs_self s)"
  "rs_result (called ref n c s) = rs_result s"
  "rs_tables (called ref n c s) = rs_tables s"
  "rs_calls (called ref n c s) = rs_calls s @ [(n, prepare_component_inputs c (rs_tables s ref))]"
  "rs_resolved (called ref n c s) =
     rs_resolved s @ [(n, rs_tables s ref, prepare_component_inputs c (rs_tables s ref))]"
  "rs_propagated (called ref n c s) = rs_propagated s"
  by (simp_all add: called_def)

lemma recorded_failed_simps [simp]:
  "rs_self (recorded_failed n r s) = (rs_self s)\<lparr>wf_status := WF_FAILED\<rparr>"
  "rs_result (recorded_failed n r s) =
     (record_result n r (rs_result s))
       \<lparr>wr_errors := wr_errors (rs_result s) @ res_errors r, wr_status := WF_FAILED\<rparr>"
  "rs_tables (recorded_failed n r s) = rs_tables s"
  "rs_calls (recorded_failed n r s) = rs_calls s"
  "rs_resolved (recorded_failed n r s) = rs_resolved s"
  "rs_propagated (recorded_failed n r s) = rs_propagated s"
  by (simp_all add: recorded_failed_def)

lemma recorded_ok_simps [simp]:
  "rs_self (recorded_ok ref n r s) = rs_self s"
  "rs_result (recorded_ok ref n r s) = record_result n r (rs_result s)"
  "rs_tables (recorded_ok ref n r s) = store_output ref n (res_data r) (rs_tables s)"
  "rs_calls (recorded_ok ref n r s) = rs_calls s"
  "rs_resolved (recorded_ok ref n r s) = rs_resolved s"
  "rs_propagated (recorded_ok ref n r s) = rs_propagated s"
  by (simp_all add: recorded_ok_def)

lemma record_result_simps [simp]:
  "wr_errors (record_result n r res) = wr_errors res"
  "wr_status (record_result n r res) = wr_status res"
  "component_results (record_result n r res) = AList.update n r (component_results res)"
  by (simp_all add: record_result_def)

text \<open>One round of the loop, by what the step does.\<close>

lemma run_loop_None:
  "map_of (components (rs_self s)) m = None \<Longrightarrow>
     run_loop ref s (m # rest) = (Inl (ExceptionRaised (py_repr m)), s)"
  by simp

lemma run_loop_Raises:
  "map_of (components (rs_self s)) m = Some c \<Longrightarrow>
   execute_impl c (prepare_component_inputs c (rs_tables s ref)) = Raises msg \<Longrightarrow>
     run_loop ref s (m # rest) = (Inl (ExceptionRaised msg), called ref m c s)"
  by (simp add: Let_def called_def)

lemma run_loop_RaisesBase:
  "map_of (components (rs_self s)) m = Some c \<Longrightarrow>
   execute_impl c (prepare_component_inputs c (rs_tables s ref)) = RaisesBaseException msg \<Longrightarrow>
     run_loop ref s (m # rest) = (Inl (BaseExceptionRaised msg), called ref m c s)"
  by (simp add: Let_def called_def)

lemma run_loop_Failed:
  "map_of (components (rs_self s)) m = Some c \<Longrightarrow>
   execute_impl c (prepare_component_inputs c (rs_tables s ref)) = Returns r \<Longrightarrow>
   res_status r = FAILED \<Longrightarrow>
     run_loop ref s (m # rest) = (Inr (), recorded_failed m r (called ref m c s))"
  by (simp add: Let_def called_def recorded_failed_def record_result_def)

lemma run_loop_Ok:
  "map_of (components (rs_self s)) m = Some c \<Longrightarrow>
   execute_impl c (prepare_component_inputs c (rs_tables s ref)) = Returns r \<Longrightarrow>
   res_status r \<noteq> FAILED \<Longrightarrow>
     run_loop ref s (m # rest) = run_loop ref (recorded_ok ref m r (called ref m c s)) rest"
  by (simp add: Let_def called_def recorded_ok_def)

text \<open>Induction over the iterations of the loop: how it ends, or one more round.\<close>

lemma run_loop_induct [consumes 1, case_names Nil None Raises RaisesBase Failed Ok]:
  assumes run: "run_loop ref s ord = (out, s')"
    and Nil: "\<And>s. P s [] (Inr ()) s"
    and None: "\<And>s m rest. map_of (components (rs_self s)) m = None \<Longrightarrow>
                 P s (m # rest) (Inl (ExceptionRaised (py_repr m))) s"
    and Raises: "\<And>s m rest c msg.
        map_of (components (rs_self s)) m = Some c \<Longrightarrow>
        execute_impl c (prepare_component_inputs c (rs_tables s ref)) = Raises msg \<Longrightarrow>
        P s (m # rest) (Inl (ExceptionRaised msg)) (called ref m c s)"
    and RaisesBase: "\<And>s m rest c msg.
        map_of (components (rs_self s)) m = Some c \<Longrightarrow>
        execute_impl c (prepare_component_inputs c (rs_tables s ref)) = RaisesBaseException msg \<Longrightarrow>
        P s (m # rest) (Inl (BaseExceptionRaised msg)) (called ref m c s)"
    and Failed: "\<And>s m rest c r.
        map_of (components (rs_self s)) m = Some c \<Longrightarrow>
        execute_impl c (prepare_component_inputs c (rs_tables s ref)) = Returns r \<Longrightarrow>
        res_status r = FAILED \<Longrightarrow>
        P s (m # rest) (Inr ()) (recorded_failed m r (called ref m c s))"
    and Ok: "\<And>s m rest c r out s'.
        map_of (components (rs_self s)) m = Some c \<Longrightarrow>
        execute_impl c (prepare_component_inputs c (rs_tables s ref)) = Returns r \<Longrightarrow>
        res_status r \<noteq> FAILED \<Longrightarrow>
        run_loop ref (recorded_ok ref m r (called ref m c s)) rest = (out, s') \<Longrightarrow>
        P (recorded_ok ref m r (called ref m c s)) rest out s' \<Longrightarrow>
        P s (m # rest) out s'"
  shows "P s ord out s'"
  using run
proof (induction ord arbitrary: s)
  case Nil
  then show ?case using assms(2) by simp
next
  case (Cons m rest)
  show ?case
  proof (cases "map_of (components (rs_self s)) m")
    case None
    from Cons.prems assms(3)[OF None, of rest] show ?thesis
      unfolding run_loop_None[OF None] by simp
  next
    case (Some c)
    show ?thesis
    proof (cases "execute_impl c (prepare_component_inputs c (rs_tables s ref))")
      case (Raises msg)
      from Cons.prems assms(4)[OF Some Raises, of rest] show ?thesis
        unfolding run_loop_Raises[OF Some Raises] by simp
    next
      case (RaisesBaseException msg)
      from Cons.prems assms(5)[OF Some RaisesBaseException, of rest] show ?thesis
        unfolding run_loop_RaisesBase[OF Some RaisesBaseException] by simp
    next
      case (Returns r)
      show ?thesis
      proof (cases "res_status r = FAILED")
        case True
        from Cons.prems assms(6)[OF Some Returns True, of rest] show ?thesis
          unfolding run_loop_Failed[OF Some Returns True] by simp
      next
        case False
        from Cons.prems
        have rl: "run_loop ref (recorded_ok ref m r (called ref m c s)) rest = (out, s')"
          unfolding run_loop_Ok[OF Some Returns False] .
        from assms(7)[OF Some Returns False rl Cons.IH[OF rl]] show ?thesis .
      qed
    qed
  qed
qed

text \<open>The calls of a run follow the order, and a result is recorded only for a step called.\<close>

lemma run_loop_calls:
  assumes "run_loop ref s ord = (out, s')"
  shows "\<exists>new. rs_calls s' = rs_calls s @ new \<and> map fst new = take (length new) ord \<and>
           set (keys (component_results (rs_result s')))
             \<subseteq> set (keys (component_results (rs_result s))) \<union> fst ` set new"
  using assms
proof (induction rule: run_loop_induct)
  case (Nil s)
  show ?case by (rule exI[of _ "[]"]) simp
next
  case (None s m rest)
  show ?case by (rule exI[of _ "[]"]) simp
next
  case (Raises s m rest c msg)
  show ?case
    by (rule exI[of _ "[(m, prepare_component_inputs c (rs_tables s ref))]"]) auto
next
  case (RaisesBase s m rest c msg)
  show ?case
    by (rule exI[of _ "[(m, prepare_component_inputs c (rs_tables s ref))]"]) auto
next
  case (Failed s m rest c r)
  show ?case
    by (rule exI[of _ "[(m, prepare_component_inputs c (rs_tables s ref))]"])
       (auto simp: keys_def dom_update)
next
  case (Ok s m rest c r out s')
  then obtain new where new:
    "rs_calls s' = (rs_calls s @ [(m, prepare_component_inputs c (rs_tables s ref))]) @ new"
    "map fst new = take (length new) rest"
    "set (keys (component_results (rs_result s')))
       \<subseteq> set (keys (component_results (record_result m r (rs_result s)))) \<union> fst ` set new"
    by auto
  let ?new = "(m, prepare_component_inputs c (rs_tables s ref)) # new"
  have "rs_calls s' = rs_calls s @ ?new" using new(1) by simp
  moreover have "map fst ?new = take (length ?new) (m # rest)" using new(2) by simp
  moreover have "set (keys (component_results (rs_result s')))
       \<subseteq> set (keys (component_results (rs_result s))) \<union> fst ` set ?new"
    using new(3) by (auto simp: keys_def dom_update)
  ultimately show ?case by blast
qed

text \<open>No exception propagates out of the loop's state: that is \<^verbatim>\<open>execute\<close>'s doing.\<close>

lemma run_loop_propagated:
  assumes "run_loop ref s ord = (out, s')"
  shows "rs_propagated s' = rs_propagated s"
  using assms by (induction rule: run_loop_induct) simp_all

text \<open>\<^verbatim>\<open>execute\<close>, given how its loop ended.\<close>

lemma execute_unfold:
  assumes "run_loop (if truthy initial_inputs then CallerTable else FreshTable)
             (initial_run_state w initial_inputs) (execution_order w) = (out, s)"
  shows "execute w initial_inputs =
     (case out of
        Inr u \<Rightarrow>
          if wf_status (rs_self s) = WF_RUNNING
          then s\<lparr>rs_self := (rs_self s)\<lparr>wf_status := WF_COMPLETED\<rparr>,
                 rs_result := (rs_result s)\<lparr>wr_status := WF_COMPLETED\<rparr>\<rparr>
          else s
      | Inl (ExceptionRaised msg) \<Rightarrow>
          s\<lparr>rs_self := (rs_self s)\<lparr>wf_status := WF_FAILED\<rparr>,
            rs_result := (rs_result s)\<lparr>wr_status := WF_FAILED,
                                        wr_errors := wr_errors (rs_result s) @ [msg]\<rparr>\<rparr>
      | Inl (BaseExceptionRaised msg) \<Rightarrow> s\<lparr>rs_propagated := Some msg\<rparr>)"
  unfolding execute_def Let_def assms by (cases out) (simp_all split: raised.splits)

lemma execute_calls:
  assumes "run_loop (if truthy initial_inputs then CallerTable else FreshTable)
             (initial_run_state w initial_inputs) (execution_order w) = (out, s)"
  shows "rs_calls (execute w initial_inputs) = rs_calls s"
    and "rs_tables (execute w initial_inputs) = rs_tables s"
    and "component_results (rs_result (execute w initial_inputs)) = component_results (rs_result s)"
    and "rs_resolved (execute w initial_inputs) = rs_resolved s"
    and "components (rs_self (execute w initial_inputs)) = components (rs_self s)"
    and "execution_order (rs_self (execute w initial_inputs)) = execution_order (rs_self s)"
  unfolding execute_unfold[OF assms] by (cases out; simp split: raised.splits)+

lemma run_loop_graph:
  assumes "run_loop ref s ord = (out, s')"
  shows "keys (components (rs_self s')) = keys (components (rs_self s)) \<and>
         execution_order (rs_self s') = execution_order (rs_self s) \<and>
         (\<forall>n. map_option dependencies (map_of (components (rs_self s')) n) =
              map_option dependencies (map_of (components (rs_self s)) n))"
  using assms
  by (induction rule: run_loop_induct) simp_all

lemma execute_graph:
  "keys (components (rs_self (execute w initial_inputs))) = keys (components w) \<and>
   execution_order (rs_self (execute w initial_inputs)) = execution_order w \<and>
   (\<forall>n. map_option dependencies (map_of (components (rs_self (execute w initial_inputs))) n) =
        map_option dependencies (map_of (components w) n))"
proof -
  let ?ref = "if truthy initial_inputs then CallerTable else FreshTable"
  let ?s0 = "initial_run_state w initial_inputs"
  obtain out s' where rl: "run_loop ?ref ?s0 (execution_order w) = (out, s')"
    by (cases "run_loop ?ref ?s0 (execution_order w)") blast
  from run_loop_graph[OF rl] show ?thesis
    unfolding execute_calls(5,6)[OF rl] by (simp add: initial_run_state_def)
qed

section \<open>The execution order is a topological order\<close>

lemma appears_before_append: "appears_before a b xs \<Longrightarrow> appears_before a b (xs @ ys)"
  by (induction xs) (auto split: if_splits)

lemma appears_before_snoc:
  "a \<in> set xs \<Longrightarrow> b \<notin> set xs \<Longrightarrow> appears_before a b (xs @ [b])"
  by (induction xs) auto

lemma map_of_Some_keys: "map_of comps n = Some c \<Longrightarrow> n \<in> set (keys comps)"
  by (auto simp: keys_def dest: map_of_SomeD intro: rev_image_eqI)

lemma order_inv_snoc:
  assumes inv: "order_inv comps st1"
    and c: "map_of comps node = Some c"
    and deps: "\<forall>d\<in>set (dependencies c). d \<in> set (keys comps) \<longrightarrow> d \<in> fst st1"
    and fresh: "node \<notin> fst st1"
  shows "order_inv comps (insert node (fst st1), snd st1 @ [node])"
  unfolding order_inv_def
proof (intro conjI allI impI)
  show "fst (insert node (fst st1), snd st1 @ [node]) = set (snd (insert node (fst st1), snd st1 @ [node]))"
    using inv by (auto simp: order_inv_def)
  show "distinct (snd (insert node (fst st1), snd st1 @ [node]))"
    using inv fresh by (auto simp: order_inv_def)
  show "set (snd (insert node (fst st1), snd st1 @ [node])) \<subseteq> set (keys comps)"
    using inv map_of_Some_keys[OF c] by (auto simp: order_inv_def)
next
  fix n c' d
  assume n: "n \<in> set (snd (insert node (fst st1), snd st1 @ [node]))"
    and c': "map_of comps n = Some c'" and d: "d \<in> set (dependencies c')"
    and dk: "d \<in> set (keys comps)"
  show "appears_before d n (snd (insert node (fst st1), snd st1 @ [node]))"
  proof (cases "n \<in> set (snd st1)")
    case True
    with inv c' d dk have "appears_before d n (snd st1)" by (auto simp: order_inv_def)
    then show ?thesis by (simp add: appears_before_append)
  next
    case False
    with n have [simp]: "n = node" by auto
    from c c' have "c' = c" by simp
    with deps d dk have "d \<in> fst st1" by auto
    with inv have "d \<in> set (snd st1)" by (simp add: order_inv_def)
    moreover from fresh inv have "node \<notin> set (snd st1)" by (simp add: order_inv_def)
    ultimately show ?thesis by (simp add: appears_before_snoc)
  qed
qed

lemma visit_inv:
  "order_inv comps st \<Longrightarrow> visit comps temp st node = Inr st' \<Longrightarrow>
     order_inv comps st' \<and> node \<in> fst st' \<and> (\<exists>new. snd st' = snd st @ new \<and> set new \<inter> temp = {})"
  and visit_deps_inv:
  "order_inv comps st \<Longrightarrow> visit_deps comps temp st ds = Inr st' \<Longrightarrow>
     order_inv comps st' \<and> (\<forall>d\<in>set ds. d \<in> set (keys comps) \<longrightarrow> d \<in> fst st') \<and>
     (\<exists>new. snd st' = snd st @ new \<and> set new \<inter> temp = {})"
proof (induction comps temp st node and comps temp st ds arbitrary: st' and st'
       rule: visit_visit_deps.induct)
  case (1 comps temp st node)
  from "1.prems"(2) have nt: "node \<notin> temp"
    by (auto simp: visit.simps split: if_splits)
  show ?case
  proof (cases "node \<in> fst st")
    case True
    with nt "1.prems" show ?thesis by (auto simp: visit.simps)
  next
    case False
    with nt "1.prems"(2) obtain c st1 where c: "map_of comps node = Some c"
      and vd: "visit_deps comps (insert node temp) st (dependencies c) = Inr st1"
      and st': "st' = (insert node (fst st1), snd st1 @ [node])"
      by (auto simp: visit.simps split: option.splits sum.splits)
    from "1.IH"[OF nt False c "1.prems"(1) vd]
    obtain new where inv1: "order_inv comps st1"
      and deps: "\<forall>d\<in>set (dependencies c). d \<in> set (keys comps) \<longrightarrow> d \<in> fst st1"
      and new: "snd st1 = snd st @ new" "set new \<inter> insert node temp = {}"
      by blast
    from False "1.prems"(1) have "node \<notin> set (snd st)" by (simp add: order_inv_def)
    with new have "node \<notin> set (snd st1)" by auto
    with inv1 have fresh: "node \<notin> fst st1" by (simp add: order_inv_def)
    have "order_inv comps st'"
      unfolding st' by (rule order_inv_snoc[OF inv1 c deps fresh])
    moreover have "node \<in> fst st'" by (simp add: st')
    moreover have "snd st' = snd st @ (new @ [node])" "set (new @ [node]) \<inter> temp = {}"
      using new nt by (auto simp: st')
    ultimately show ?thesis by blast
  qed
next
  case (2 comps temp st)
  then show ?case by simp
next
  case (3 comps temp st d ds)
  show ?case
  proof (cases "d \<in> set (keys comps)")
    case True
    with "3.prems"(2) obtain st1 where v: "visit comps temp st d = Inr st1"
      and vd: "visit_deps comps temp st1 ds = Inr st'"
      by (auto split: sum.splits)
    from "3.IH"(1)[OF True "3.prems"(1) v]
    obtain new1 where inv1: "order_inv comps st1" and d1: "d \<in> fst st1"
      and new1: "snd st1 = snd st @ new1" "set new1 \<inter> temp = {}" by blast
    from "3.IH"(2)[OF True v inv1 vd]
    obtain new2 where inv2: "order_inv comps st'"
      and ds: "\<forall>d\<in>set ds. d \<in> set (keys comps) \<longrightarrow> d \<in> fst st'"
      and new2: "snd st' = snd st1 @ new2" "set new2 \<inter> temp = {}" by blast
    from d1 inv1 inv2 new2 have "d \<in> fst st'" by (auto simp: order_inv_def)
    moreover have "snd st' = snd st @ (new1 @ new2)" "set (new1 @ new2) \<inter> temp = {}"
      using new1 new2 by auto
    ultimately show ?thesis using inv2 ds by (metis set_ConsD)
  next
    case False
    with "3.prems"(2) have vd: "visit_deps comps temp st ds = Inr st'" by simp
    from "3.IH"(3)[OF False "3.prems"(1) vd] False show ?thesis by auto
  qed
qed

lemma visit_all_inv:
  "order_inv comps st \<Longrightarrow> visit_all comps st ns = Inr st' \<Longrightarrow>
     order_inv comps st' \<and> set ns \<subseteq> fst st' \<and> fst st \<subseteq> fst st'"
proof (induction ns arbitrary: st)
  case Nil
  then show ?case by simp
next
  case (Cons n ns)
  show ?case
  proof (cases "n \<in> fst st")
    case True
    with Cons.prems have "visit_all comps st ns = Inr st'" by simp
    from Cons.IH[OF Cons.prems(1) this] True show ?thesis by auto
  next
    case False
    with Cons.prems(2) obtain st1 where v: "visit comps {} st n = Inr st1"
      and va: "visit_all comps st1 ns = Inr st'" by (auto split: sum.splits)
    from visit_inv[OF Cons.prems(1) v] obtain new where inv1: "order_inv comps st1"
      and n1: "n \<in> fst st1" and new: "snd st1 = snd st @ new" by blast
    from Cons.IH[OF inv1 va] have "order_inv comps st'" "set ns \<subseteq> fst st'" "fst st1 \<subseteq> fst st'"
      by auto
    moreover from new inv1 Cons.prems(1) have "fst st \<subseteq> fst st1" by (auto simp: order_inv_def)
    ultimately show ?thesis using n1 by auto
  qed
qed

lemma order_inv_init: "order_inv comps ({}, [])"
  by (simp add: order_inv_def)

lemma update_execution_order_Inr:
  assumes "update_execution_order w = (Inr (), w')" and d: "distinct (keys (components w))"
  shows "components w' = components w \<and> wf_status w' = wf_status w \<and> wf_name w' = wf_name w \<and>
         mset (execution_order w') = mset (keys (components w)) \<and>
         topological (components w) (execution_order w')"
proof -
  from assms(1) obtain st where va: "visit_all (components w) ({}, []) (keys (components w)) = Inr st"
    and w': "w' = w\<lparr>execution_order := snd st\<rparr>"
    by (auto simp: update_execution_order_def split: sum.splits)
  from visit_all_inv[OF order_inv_init va]
  have inv: "order_inv (components w) st" and sub: "set (keys (components w)) \<subseteq> fst st" by auto
  from inv sub have "set (snd st) = set (keys (components w))" "distinct (snd st)"
    by (auto simp: order_inv_def)
  with d have "mset (snd st) = mset (keys (components w))"
    by (simp add: set_eq_iff_mset_eq_distinct)
  moreover have "topological (components w) (snd st)"
    unfolding topological_def
  proof (intro allI impI)
    fix a b cb
    assume b: "map_of (components w) b = Some cb" and a: "a \<in> set (dependencies cb)"
      and ak: "a \<in> set (keys (components w))"
    from b have "b \<in> set (keys (components w))" by (rule map_of_Some_keys)
    with sub inv have "b \<in> set (snd st)" by (auto simp: order_inv_def)
    with inv b a ak show "appears_before a b (snd st)" by (auto simp: order_inv_def)
  qed
  ultimately show ?thesis by (simp add: w')
qed

lemma update_execution_order_components:
  "components (snd (update_execution_order w)) = components w"
  by (simp add: update_execution_order_def split: sum.splits)

lemma topological_same_deps:
  assumes "topological comps ord" and "keys comps' = keys comps"
    and "\<forall>n. map_option dependencies (map_of comps' n) = map_option dependencies (map_of comps n)"
  shows "topological comps' ord"
  unfolding topological_def
proof (intro allI impI)
  fix a b cb'
  assume b: "map_of comps' b = Some cb'" and a: "a \<in> set (dependencies cb')"
    and k: "a \<in> set (keys comps')"
  from assms(3) b obtain cb where "map_of comps b = Some cb" "dependencies cb = dependencies cb'"
    by (metis map_option_eq_Some option.simps(9))
  with assms(1,2) a k show "appears_before a b ord" by (auto simp: topological_def)
qed

lemma reachable_invariant:
  "reachable w \<Longrightarrow>
     distinct (keys (components w)) \<and>
     mset (execution_order w) = mset (keys (components w)) \<and>
     topological (components w) (execution_order w)"
proof (induction rule: reachable.induct)
  case (reachable_init n)
  show ?case by (simp add: Workflow_init_def keys_def topological_def)
next
  case (reachable_add w c w')
  let ?w1 = "w\<lparr>components := AList.update (name c) c (components w)\<rparr>"
  from reachable_add.hyps(2) have u: "update_execution_order ?w1 = (Inr (), w')"
    by (auto simp: add_component_def split: if_splits)
  from reachable_add.IH have d: "distinct (keys (components ?w1))"
    by (simp add: keys_def distinct_update)
  from update_execution_order_Inr[OF u d] d show ?case by simp
next
  case (reachable_remove w n w')
  let ?w1 = "w\<lparr>components := AList.delete n (components w)\<rparr>"
  from reachable_remove.hyps(2) have u: "update_execution_order ?w1 = (Inr (), w')"
    by (auto simp: remove_component_def split: if_splits)
  from reachable_remove.IH have d: "distinct (keys (components ?w1))"
    by (simp add: keys_def distinct_delete)
  from update_execution_order_Inr[OF u d] d show ?case by simp
next
  case (reachable_connect w source target w')
  let ?w1 = "w\<lparr>components := AList.map_entry source (add_output target)
                (AList.map_entry target (add_dependency source) (components w))\<rparr>"
  from reachable_connect.hyps(2) have u: "update_execution_order ?w1 = (Inr (), w')"
    by (auto simp: connect_components_def Let_def split: if_splits)
  from reachable_connect.IH have d: "distinct (keys (components ?w1))"
    by (simp add: keys_def distinct_map_entry)
  from update_execution_order_Inr[OF u d] d show ?case by simp
next
  case (reachable_run w initial_inputs)
  from execute_graph[of w initial_inputs]
  have k: "keys (components (rs_self (execute w initial_inputs))) = keys (components w)"
    and o: "execution_order (rs_self (execute w initial_inputs)) = execution_order w"
    and dp: "\<forall>n. map_option dependencies
                  (map_of (components (rs_self (execute w initial_inputs))) n) =
                map_option dependencies (map_of (components w) n)"
    by blast+
  from reachable_run.IH topological_same_deps[OF _ k dp] k o show ?case by simp
qed

text \<open>
  Claim C1. In every graph state reached by calls of \<^verbatim>\<open>add_component\<close> and
  \<^verbatim>\<open>connect_components\<close> that returned normally (and also by such calls of
  \<^verbatim>\<open>remove_component\<close>, and by runs), the execution order is a permutation of the
  component names, and whenever a component \<open>b\<close> lists a component \<open>a\<close> of the graph as a
  dependency, \<open>a\<close> comes before \<open>b\<close> in the order.
\<close>

theorem execution_order_topological:
  assumes "reachable w"
  shows "mset (execution_order w) = mset (keys (components w)) \<and>
         (\<forall>a b cb. map_of (components w) b = Some cb \<and> a \<in> set (dependencies cb) \<and>
              a \<in> set (keys (components w)) \<longrightarrow> appears_before a b (execution_order w))"
  using reachable_invariant[OF assms] by (auto simp: topological_def)

section \<open>Cycle detection is exact\<close>

lemma appears_before_in_set: "appears_before a b xs \<Longrightarrow> a \<in> set xs \<and> b \<in> set xs"
  by (induction xs) (auto split: if_splits)

lemma appears_before_irrefl: "\<not> appears_before a a xs"
  by (induction xs) auto

lemma appears_before_trans:
  "appears_before a b xs \<Longrightarrow> appears_before b c xs \<Longrightarrow> appears_before a c xs"
  by (induction xs) (auto split: if_splits dest: appears_before_in_set)

lemma topological_edges:
  "topological comps ord \<Longrightarrow> (a, b) \<in> dep_edges comps \<Longrightarrow> appears_before a b ord"
  by (auto simp: topological_def dep_edges_def)

lemma topological_trancl:
  assumes "topological comps ord" and "(a, b) \<in> (dep_edges comps)\<^sup>+"
  shows "appears_before a b ord"
  using assms(2)
proof (induction rule: trancl.induct)
  case (r_into_trancl a b)
  with assms(1) show ?case by (rule topological_edges)
next
  case (trancl_into_trancl a b c)
  from topological_edges[OF assms(1) trancl_into_trancl.hyps(2)] trancl_into_trancl.IH
  show ?case by (blast intro: appears_before_trans)
qed

lemma topological_acyclic: "topological comps ord \<Longrightarrow> \<not> cyclic comps"
  by (auto simp: cyclic_def dest: topological_trancl simp: appears_before_irrefl)

lemma keys_map_of: "n \<in> set (keys comps) \<Longrightarrow> \<exists>c. map_of comps n = Some c"
  by (cases "map_of comps n") (auto simp: keys_def map_of_eq_None_iff)

lemma visit_raises:
  "visit comps temp st node = Inl e \<Longrightarrow> node \<in> set (keys comps) \<Longrightarrow>
     (\<exists>n. e = CircularDependency n) \<and>
     (cyclic comps \<or> (\<exists>n. e = CircularDependency n \<and> n \<in> temp \<and> (n, node) \<in> (dep_edges comps)\<^sup>*))"
  and visit_deps_raises:
  "visit_deps comps temp st ds = Inl e \<Longrightarrow>
     (\<exists>n. e = CircularDependency n) \<and>
     (cyclic comps \<or> (\<exists>n d. e = CircularDependency n \<and> n \<in> temp \<and> d \<in> set ds \<and>
        d \<in> set (keys comps) \<and> (n, d) \<in> (dep_edges comps)\<^sup>*))"
proof (induction comps temp st node and comps temp st ds arbitrary: e and e
       rule: visit_visit_deps.induct)
  case (1 comps temp st node)
  show ?case
  proof (cases "node \<in> temp")
    case True
    with "1.prems" show ?thesis by (auto simp: visit.simps)
  next
    case nt: False
    from "1.prems"(2) obtain c where c: "map_of comps node = Some c"
      using keys_map_of by blast
    from nt "1.prems"(1) c have nv: "node \<notin> fst st"
      and vd: "visit_deps comps (insert node temp) st (dependencies c) = Inl e"
      by (auto simp: visit.simps split: if_splits sum.splits)
    from "1.IH"[OF nt nv c vd] obtain n where e: "e = CircularDependency n"
      and alt: "cyclic comps \<or> (\<exists>d. n \<in> insert node temp \<and> d \<in> set (dependencies c) \<and>
              d \<in> set (keys comps) \<and> (n, d) \<in> (dep_edges comps)\<^sup>*)"
      by auto
    show ?thesis
    proof (cases "cyclic comps")
      case True
      with e show ?thesis by simp
    next
      case False
      with alt obtain d where n: "n \<in> insert node temp" and d: "d \<in> set (dependencies c)"
        "d \<in> set (keys comps)" and nd: "(n, d) \<in> (dep_edges comps)\<^sup>*" by blast
      from d c have "(d, node) \<in> dep_edges comps" by (auto simp: dep_edges_def)
      with nd have plus: "(n, node) \<in> (dep_edges comps)\<^sup>+" by (rule rtrancl_into_trancl1)
      with False have "n \<noteq> node" by (auto simp: cyclic_def)
      with n have "n \<in> temp" by simp
      moreover from plus have "(n, node) \<in> (dep_edges comps)\<^sup>*" by (rule trancl_into_rtrancl)
      ultimately show ?thesis using e by blast
    qed
  qed
next
  case (2 comps temp st)
  then show ?case by simp
next
  case (3 comps temp st d ds)
  show ?case
  proof (cases "d \<in> set (keys comps)")
    case True
    show ?thesis
    proof (cases "visit comps temp st d")
      case (Inl e')
      with True "3.prems" have "e' = e" by simp
      with Inl have v: "visit comps temp st d = Inl e" by simp
      from "3.IH"(1)[OF True v True] obtain n where e: "e = CircularDependency n"
        and alt: "cyclic comps \<or> (n \<in> temp \<and> (n, d) \<in> (dep_edges comps)\<^sup>*)" by auto
      from alt True have "cyclic comps \<or> (\<exists>d'. n \<in> temp \<and> d' \<in> set (d # ds) \<and>
          d' \<in> set (keys comps) \<and> (n, d') \<in> (dep_edges comps)\<^sup>*)"
        by (metis list.set_intros(1))
      with e show ?thesis by blast
    next
      case (Inr st1)
      with True "3.prems" have vd: "visit_deps comps temp st1 ds = Inl e" by simp
      from "3.IH"(2)[OF True Inr vd] obtain n where e: "e = CircularDependency n"
        and alt: "cyclic comps \<or> (\<exists>d'. n \<in> temp \<and> d' \<in> set ds \<and>
          d' \<in> set (keys comps) \<and> (n, d') \<in> (dep_edges comps)\<^sup>*)" by auto
      from alt have "cyclic comps \<or> (\<exists>d'. n \<in> temp \<and> d' \<in> set (d # ds) \<and>
          d' \<in> set (keys comps) \<and> (n, d') \<in> (dep_edges comps)\<^sup>*)"
        by (metis list.set_intros(2))
      with e show ?thesis by blast
    qed
  next
    case False
    with "3.prems" have vd: "visit_deps comps temp st ds = Inl e" by simp
    from "3.IH"(3)[OF False vd] obtain n where e: "e = CircularDependency n"
      and alt: "cyclic comps \<or> (\<exists>d'. n \<in> temp \<and> d' \<in> set ds \<and>
        d' \<in> set (keys comps) \<and> (n, d') \<in> (dep_edges comps)\<^sup>*)" by auto
    from alt have "cyclic comps \<or> (\<exists>d'. n \<in> temp \<and> d' \<in> set (d # ds) \<and>
        d' \<in> set (keys comps) \<and> (n, d') \<in> (dep_edges comps)\<^sup>*)"
      by (metis list.set_intros(2))
    with e show ?thesis by blast
  qed
qed

lemma visit_all_raises:
  "visit_all comps st ns = Inl e \<Longrightarrow> set ns \<subseteq> set (keys comps) \<Longrightarrow>
     (\<exists>n. e = CircularDependency n) \<and> cyclic comps"
proof (induction ns arbitrary: st)
  case Nil
  then show ?case by simp
next
  case (Cons n ns)
  show ?case
  proof (cases "n \<in> fst st")
    case True
    with Cons show ?thesis by simp
  next
    case False
    show ?thesis
    proof (cases "visit comps {} st n")
      case (Inl e')
      with False Cons.prems have "e' = e" by simp
      with visit_raises[of comps "{}" st n e] Inl Cons.prems(2) show ?thesis by auto
    next
      case (Inr st1)
      with False Cons.prems have "visit_all comps st1 ns = Inl e" by simp
      from Cons.IH[OF this] Cons.prems(2) show ?thesis by simp
    qed
  qed
qed

lemma update_execution_order_topological:
  assumes "update_execution_order w = (Inr (), w')"
  shows "topological (components w) (execution_order w')"
proof -
  from assms obtain st where va: "visit_all (components w) ({}, []) (keys (components w)) = Inr st"
    and w': "w' = w\<lparr>execution_order := snd st\<rparr>"
    by (auto simp: update_execution_order_def split: sum.splits)
  from visit_all_inv[OF order_inv_init va]
  have inv: "order_inv (components w) st" and sub: "set (keys (components w)) \<subseteq> fst st" by auto
  have "topological (components w) (snd st)"
    unfolding topological_def
  proof (intro allI impI)
    fix a b cb
    assume b: "map_of (components w) b = Some cb" and a: "a \<in> set (dependencies cb)"
      and ak: "a \<in> set (keys (components w))"
    from b have "b \<in> set (keys (components w))" by (rule map_of_Some_keys)
    with sub inv have "b \<in> set (snd st)" by (auto simp: order_inv_def)
    with inv b a ak show "appears_before a b (snd st)" by (auto simp: order_inv_def)
  qed
  then show ?thesis by (simp add: w')
qed

text \<open>The order computation raises exactly on a cyclic graph, and then it is the
  circular-dependency error, with the workflow untouched.\<close>

lemma update_execution_order_cyclic:
  "cyclic (components w) \<Longrightarrow> \<exists>n. update_execution_order w = (Inl (CircularDependency n), w)"
proof -
  assume cyc: "cyclic (components w)"
  show ?thesis
  proof (cases "visit_all (components w) ({}, []) (keys (components w))")
    case (Inl e)
    from visit_all_raises[OF Inl] obtain n where "e = CircularDependency n" by auto
    with Inl show ?thesis by (simp add: update_execution_order_def)
  next
    case (Inr st)
    then have "update_execution_order w = (Inr (), w\<lparr>execution_order := snd st\<rparr>)"
      by (simp add: update_execution_order_def)
    from update_execution_order_topological[OF this] cyc show ?thesis
      by (auto dest: topological_acyclic)
  qed
qed

lemma update_execution_order_acyclic:
  "\<not> cyclic (components w) \<Longrightarrow> fst (update_execution_order w) = Inr ()"
proof -
  assume ac: "\<not> cyclic (components w)"
  show ?thesis
  proof (cases "visit_all (components w) ({}, []) (keys (components w))")
    case (Inl e)
    from visit_all_raises[OF Inl] ac show ?thesis by simp
  next
    case (Inr st)
    then show ?thesis by (simp add: update_execution_order_def)
  qed
qed

section \<open>Evaluating the operations on the sample graphs\<close>

lemmas eval_simps = update_execution_order_def add_component_def connect_components_def
  remove_component_def keys_def Workflow_init_def succeeding_def failing_def raising_def
  Component_init_def add_dependency_def add_output_def visit.simps Let_def

lemma returned_normally: "fst p = Inr () \<Longrightarrow> p = (Inr (), snd p)"
  by (cases p) simp

lemma reachable_chain2: "reachable chain2"
proof -
  let ?w0 = "Workflow_init ''w'' :: (nat, unit) Workflow"
  let ?w1 = "snd (add_component (succeeding ''A'' 1) ?w0)"
  let ?w2 = "snd (add_component (succeeding ''B'' 2) ?w1)"
  have r0: "reachable ?w0" by (rule reachable_init)
  have "fst (add_component (succeeding ''A'' 1) ?w0) = Inr ()" by (simp add: eval_simps)
  from reachable_add[OF r0 returned_normally[OF this]] have r1: "reachable ?w1" .
  have "fst (add_component (succeeding ''B'' 2) ?w1) = Inr ()" by (simp add: eval_simps)
  from reachable_add[OF r1 returned_normally[OF this]] have r2: "reachable ?w2" .
  have "fst (connect_components ''A'' ''B'' ?w2) = Inr ()" by (simp add: eval_simps)
  from reachable_connect[OF r2 returned_normally[OF this]] show ?thesis
    by (simp add: chain2_def)
qed

lemma chain2_eval:
  "components chain2 =
     [(''A'', (succeeding ''A'' 1)\<lparr>outputs := [''B'']\<rparr>),
      (''B'', (succeeding ''B'' 2)\<lparr>dependencies := [''A'']\<rparr>)]"
  "execution_order chain2 = [''A'', ''B'']"
  "wf_status chain2 = WF_PENDING"
  by (simp_all add: chain2_def eval_simps)

theorem execution_order_topological_witness:
  "reachable chain2 \<and>
   mset (execution_order chain2) = mset (keys (components chain2)) \<and>
   appears_before ''A'' ''B'' (execution_order chain2)"
proof -
  note C1 = execution_order_topological[OF reachable_chain2]
  from C1 have m: "mset (execution_order chain2) = mset (keys (components chain2))" by blast
  from C1 have "\<forall>a b cb. map_of (components chain2) b = Some cb \<and> a \<in> set (dependencies cb) \<and>
      a \<in> set (keys (components chain2)) \<longrightarrow> appears_before a b (execution_order chain2)"
    by blast
  then have "map_of (components chain2) ''B'' = Some ((succeeding ''B'' 2)\<lparr>dependencies := [''A'']\<rparr>)
       \<and> ''A'' \<in> set (dependencies ((succeeding ''B'' 2)\<lparr>dependencies := [''A'']\<rparr>))
       \<and> ''A'' \<in> set (keys (components chain2))
     \<longrightarrow> appears_before ''A'' ''B'' (execution_order chain2)"
    by blast
  then have ab: "appears_before ''A'' ''B'' (execution_order chain2)"
    by (simp add: chain2_eval(1) keys_def)
  from reachable_chain2 m ab show ?thesis by (intro conjI)
qed

section \<open>Connecting components\<close>

text \<open>
  Claim C2, as stated, fails. With \<open>A\<close> feeding \<open>B\<close>, connecting \<open>B\<close> to \<open>A\<close> raises the
  circular-dependency error, but the call has already appended to the edge lists: \<open>A\<close>
  now lists \<open>B\<close> as a dependency and \<open>B\<close> lists \<open>A\<close> as an output.
\<close>

theorem connect_cycle_counterexample:
  "fst (connect_components ''B'' ''A'' chain2) = Inl (CircularDependency ''A'') \<and>
   map (\<lambda>(n, c). (n, dependencies c, outputs c)) (components chain2) =
     [(''A'', [], [''B'']), (''B'', [''A''], [])] \<and>
   map (\<lambda>(n, c). (n, dependencies c, outputs c))
       (components (snd (connect_components ''B'' ''A'' chain2))) =
     [(''A'', [''B''], [''B'']), (''B'', [''A''], [''A''])]"
  by (simp add: chain2_eval eval_simps)

text \<open>What the two edge-list updates of \<^verbatim>\<open>connect_components\<close> leave behind.\<close>

lemma map_of_connect:
  "map_of (AList.map_entry source (add_output target)
            (AList.map_entry target (add_dependency source) comps)) x =
   map_option (\<lambda>c. (if x = source then add_output target else id)
                     ((if x = target then add_dependency source else id) c))
              (map_of comps x)"
  by (cases "map_of comps x") (auto simp: map_of_map_entry option.map_ident split: option.splits)

lemma keys_connect:
  "keys (AList.map_entry source f (AList.map_entry target g comps)) = keys comps"
  by (simp add: keys_def map_fst_map_entry)

lemma add_edge_fields [simp]:
  "set (dependencies (add_dependency s c)) = insert s (set (dependencies c))"
  "outputs (add_dependency s c) = outputs c"
  "set (outputs (add_output t c)) = insert t (set (outputs c))"
  "dependencies (add_output t c) = dependencies c"
  by (auto simp: add_dependency_def add_output_def)

text \<open>
  Claim C2, amended. When both endpoints are present and the graph with the new edge
  has a dependency cycle, \<^verbatim>\<open>connect_components\<close> raises the circular-dependency error and
  the execution order stays as it was, but the edge stays applied: the source is among
  the target's dependencies, the target among the source's outputs, and the component
  mapping is the one the two edge-list updates produced.
\<close>

theorem connect_cycle_raises_edge_kept:
  assumes "source \<in> set (keys (components w))" and "target \<in> set (keys (components w))"
    and "cyclic (AList.map_entry source (add_output target)
                  (AList.map_entry target (add_dependency source) (components w)))"
  shows "\<exists>n w'. connect_components source target w = (Inl (CircularDependency n), w') \<and>
           execution_order w' = execution_order w \<and>
           components w' = AList.map_entry source (add_output target)
                             (AList.map_entry target (add_dependency source) (components w)) \<and>
           keys (components w') = keys (components w) \<and>
           (\<exists>ct. map_of (components w') target = Some ct \<and> source \<in> set (dependencies ct)) \<and>
           (\<exists>cs. map_of (components w') source = Some cs \<and> target \<in> set (outputs cs))"
proof -
  let ?comps = "AList.map_entry source (add_output target)
                  (AList.map_entry target (add_dependency source) (components w))"
  let ?w1 = "w\<lparr>components := ?comps\<rparr>"
  from assms(3) have "cyclic (components ?w1)" by simp
  from update_execution_order_cyclic[OF this] obtain n
    where u: "update_execution_order ?w1 = (Inl (CircularDependency n), ?w1)" by blast
  with assms(1,2) have c: "connect_components source target w = (Inl (CircularDependency n), ?w1)"
    by (simp add: connect_components_def Let_def)
  from keys_map_of[OF assms(1)] obtain cs where cs: "map_of (components w) source = Some cs"
    by blast
  from keys_map_of[OF assms(2)] obtain ct where ct: "map_of (components w) target = Some ct"
    by blast
  have "\<exists>ct'. map_of ?comps target = Some ct' \<and> source \<in> set (dependencies ct')"
    using ct by (simp add: map_of_connect)
  moreover have "\<exists>cs'. map_of ?comps source = Some cs' \<and> target \<in> set (outputs cs')"
    using cs by (simp add: map_of_connect)
  ultimately show ?thesis using c by (simp add: keys_connect)
qed

lemma cyclic_chain2_back:
  "cyclic (AList.map_entry ''B'' (add_output ''A'')
            (AList.map_entry ''A'' (add_dependency ''B'') (components chain2)))"
proof -
  let ?comps = "AList.map_entry ''B'' (add_output ''A'')
            (AList.map_entry ''A'' (add_dependency ''B'') (components chain2))"
  have "(''A'', ''B'') \<in> dep_edges ?comps"
    by (simp add: dep_edges_def chain2_eval eval_simps)
  moreover have "(''B'', ''A'') \<in> dep_edges ?comps"
    by (simp add: dep_edges_def chain2_eval eval_simps)
  ultimately have "(''A'', ''A'') \<in> (dep_edges ?comps)\<^sup>+"
    by (blast intro: trancl.intros)
  then show ?thesis unfolding cyclic_def by blast
qed

theorem connect_cycle_raises_edge_kept_witness:
  "\<exists>n w'. connect_components ''B'' ''A'' chain2 = (Inl (CircularDependency n), w') \<and>
      execution_order w' = [''A'', ''B''] \<and>
      (\<exists>ct. map_of (components w') ''A'' = Some ct \<and> ''B'' \<in> set (dependencies ct)) \<and>
      (\<exists>cs. map_of (components w') ''B'' = Some cs \<and> ''A'' \<in> set (outputs cs))"
proof -
  have s: "''B'' \<in> set (keys (components chain2))" by (simp add: chain2_eval keys_def)
  have t: "''A'' \<in> set (keys (components chain2))" by (simp add: chain2_eval keys_def)
  from connect_cycle_raises_edge_kept[OF s t cyclic_chain2_back]
  show ?thesis unfolding chain2_eval(2) by blast
qed

section \<open>Removing a component\<close>

text \<open>
  Claim C5, as stated, fails. Removing \<open>A\<close> from the graph where \<open>A\<close> feeds \<open>B\<close> returns
  normally and leaves \<open>B\<close> listing \<open>A\<close> as a dependency.
\<close>

theorem remove_component_counterexample:
  "fst (remove_component ''A'' chain2) = Inr () \<and>
   map (\<lambda>(n, c). (n, dependencies c)) (components (snd (remove_component ''A'' chain2))) =
     [(''B'', [''A''])]"
  by (simp add: chain2_eval eval_simps)

text \<open>A reachable graph has no dependency cycle, and deleting a component adds none.\<close>

lemma reachable_acyclic: "reachable w \<Longrightarrow> \<not> cyclic (components w)"
  using reachable_invariant topological_acyclic by blast

lemma dep_edges_delete: "dep_edges (AList.delete n comps) \<subseteq> dep_edges comps"
  by (auto simp: dep_edges_def keys_def delete_conv' delete_keys split: if_splits)

lemma cyclic_delete: "cyclic (AList.delete n comps) \<Longrightarrow> cyclic comps"
  unfolding cyclic_def using trancl_mono[OF _ dep_edges_delete] by blast

text \<open>
  Claim C5, amended. For a name in the graph, \<^verbatim>\<open>remove_component\<close> deletes that entry of
  the component mapping and nothing else: every other component, with its dependencies
  and outputs lists, is as before, so references to the removed name stay. From a
  reachable state the call returns normally and the recomputed order is a permutation of
  the remaining names with every dependency edge between remaining components going
  forward. For a name not in the graph the call raises the not-found error and the graph
  is unchanged.
\<close>

theorem remove_component_keeps_references:
  "(n \<in> set (keys (components w)) \<longrightarrow>
      components (snd (remove_component n w)) = AList.delete n (components w) \<and>
      (reachable w \<longrightarrow>
         fst (remove_component n w) = Inr () \<and>
         mset (execution_order (snd (remove_component n w))) =
           mset (keys (AList.delete n (components w))) \<and>
         topological (AList.delete n (components w))
           (execution_order (snd (remove_component n w))))) \<and>
   (n \<notin> set (keys (components w)) \<longrightarrow> remove_component n w = (Inl (NotFound n), w))"
proof (intro conjI impI)
  assume "n \<notin> set (keys (components w))"
  then show "remove_component n w = (Inl (NotFound n), w)" by (simp add: remove_component_def)
next
  assume n: "n \<in> set (keys (components w))"
  then show "components (snd (remove_component n w)) = AList.delete n (components w)"
    by (simp add: remove_component_def update_execution_order_components)
next
  assume n: "n \<in> set (keys (components w))" and r: "reachable w"
  let ?w1 = "w\<lparr>components := AList.delete n (components w)\<rparr>"
  from n have rm: "remove_component n w = update_execution_order ?w1"
    by (simp add: remove_component_def)
  from reachable_acyclic[OF r] have "\<not> cyclic (components ?w1)"
    by (auto dest: cyclic_delete)
  from update_execution_order_acyclic[OF this] rm
  have ok: "fst (remove_component n w) = Inr ()" by simp
  then show "fst (remove_component n w) = Inr ()" .
  from returned_normally[OF ok] have "reachable (snd (remove_component n w))"
    using r by (rule reachable_remove[rotated])
  from reachable_invariant[OF this]
  show "mset (execution_order (snd (remove_component n w))) =
           mset (keys (AList.delete n (components w)))"
    and "topological (AList.delete n (components w))
           (execution_order (snd (remove_component n w)))"
    using n by (simp_all add: remove_component_def update_execution_order_components)
qed

theorem remove_component_keeps_references_witness:
  "(''A'' \<in> set (keys (components chain2)) \<and> reachable chain2 \<and>
    fst (remove_component ''A'' chain2) = Inr () \<and>
    components (snd (remove_component ''A'' chain2)) = AList.delete ''A'' (components chain2) \<and>
    mset (execution_order (snd (remove_component ''A'' chain2))) =
      mset (keys (AList.delete ''A'' (components chain2)))) \<and>
   (''Z'' \<notin> set (keys (components chain2)) \<and>
    remove_component ''Z'' chain2 = (Inl (NotFound ''Z''), chain2))"
proof -
  have a: "''A'' \<in> set (keys (components chain2))" by (simp add: chain2_eval keys_def)
  have z: "''Z'' \<notin> set (keys (components chain2))" by (simp add: chain2_eval keys_def)
  from remove_component_keeps_references[of "''A''" chain2] a reachable_chain2
  have "fst (remove_component ''A'' chain2) = Inr () \<and>
    components (snd (remove_component ''A'' chain2)) = AList.delete ''A'' (components chain2) \<and>
    mset (execution_order (snd (remove_component ''A'' chain2))) =
      mset (keys (AList.delete ''A'' (components chain2)))" by blast
  moreover from remove_component_keeps_references[of "''Z''" chain2] z
  have "remove_component ''Z'' chain2 = (Inl (NotFound ''Z''), chain2)" by blast
  ultimately show ?thesis using a z reachable_chain2 by blast
qed

section \<open>Dependencies and outputs as mirror images\<close>

text \<open>
  Claim C6, as stated, fails. After \<open>A\<close> is removed from the graph where \<open>A\<close> feeds \<open>B\<close>
  and a new step named \<open>A\<close> is added (both calls return normally), \<open>B\<close> lists \<open>A\<close> as a
  dependency while the new \<open>A\<close> has no outputs.
\<close>

theorem mirrored_counterexample:
  "fst (remove_component ''A'' chain2) = Inr () \<and>
   fst (add_component (succeeding ''A'' 3) (snd (remove_component ''A'' chain2))) = Inr () \<and>
   mirrored (components chain2) \<and>
   \<not> mirrored (components chain2_readd)"
  by (simp add: chain2_readd_def chain2_eval eval_simps mirrored_def)

lemma mirrored_map_of:
  "distinct (keys comps) \<Longrightarrow>
     mirrored comps =
       (\<forall>a ca b cb. map_of comps a = Some ca \<longrightarrow> map_of comps b = Some cb \<longrightarrow>
           (a \<in> set (dependencies cb)) = (b \<in> set (outputs ca)))"
  by (auto simp: mirrored_def keys_def)

lemma mirrored_connect:
  assumes d: "distinct (keys comps)" and m: "mirrored comps"
  shows "mirrored (AList.map_entry source (add_output target)
                     (AList.map_entry target (add_dependency source) comps))"
proof -
  let ?comps = "AList.map_entry source (add_output target)
                     (AList.map_entry target (add_dependency source) comps)"
  from d have d': "distinct (keys ?comps)" by (simp add: keys_connect)
  from m d have m': "\<And>a ca b cb. map_of comps a = Some ca \<Longrightarrow> map_of comps b = Some cb \<Longrightarrow>
           (a \<in> set (dependencies cb)) = (b \<in> set (outputs ca))"
    by (simp add: mirrored_map_of)
  show ?thesis
    unfolding mirrored_map_of[OF d']
  proof (intro allI impI)
    fix a ca b cb
    assume a: "map_of ?comps a = Some ca" and b: "map_of ?comps b = Some cb"
    from a obtain ca0 where ca0: "map_of comps a = Some ca0"
      and ca: "ca = (if a = source then add_output target else id)
                      ((if a = target then add_dependency source else id) ca0)"
      by (auto simp: map_of_connect)
    from b obtain cb0 where cb0: "map_of comps b = Some cb0"
      and cb: "cb = (if b = source then add_output target else id)
                      ((if b = target then add_dependency source else id) cb0)"
      by (auto simp: map_of_connect)
    from m'[OF ca0 cb0] show "(a \<in> set (dependencies cb)) = (b \<in> set (outputs ca))"
      by (auto simp: ca cb)
  qed
qed

lemma mirrored_delete:
  assumes d: "distinct (keys comps)" and m: "mirrored comps"
  shows "mirrored (AList.delete n comps)"
proof -
  from d have d': "distinct (keys (AList.delete n comps))"
    by (simp add: keys_def distinct_delete)
  from m d show ?thesis
    unfolding mirrored_map_of[OF d'] mirrored_map_of[OF d]
    by (auto simp: delete_conv' split: if_splits)
qed

lemma mirrored_update:
  assumes d: "distinct (keys comps)" and m: "mirrored comps"
    and c: "dependencies c = []" "outputs c = []"
    and fresh: "\<forall>(b, cb) \<in> set comps. n \<notin> set (dependencies cb) \<and> n \<notin> set (outputs cb)"
  shows "mirrored (AList.update n c comps)"
proof -
  from d have d': "distinct (keys (AList.update n c comps))"
    by (simp add: keys_def distinct_update)
  from fresh d have f: "\<And>b cb. map_of comps b = Some cb \<Longrightarrow>
      n \<notin> set (dependencies cb) \<and> n \<notin> set (outputs cb)"
    by (auto simp: keys_def)
  from m d c f show ?thesis
    unfolding mirrored_map_of[OF d'] mirrored_map_of[OF d]
    by (auto simp: update_conv' split: if_splits)
qed

text \<open>
  Claim C6, amended. In a graph with distinct names whose edge lists mirror each other,
  they still do after every \<^verbatim>\<open>connect_components\<close> and every \<^verbatim>\<open>remove_component\<close> call,
  returning or raising, and after every \<^verbatim>\<open>add_component\<close> call, returning or raising, of
  a component whose own edge lists are empty and whose name no present component lists
  as a dependency or an output.
\<close>

theorem mirrored_preserved:
  assumes "distinct (keys (components w))" and "mirrored (components w)"
  shows "mirrored (components (snd (connect_components source target w))) \<and>
         mirrored (components (snd (remove_component n w))) \<and>
         (dependencies c = [] \<and> outputs c = [] \<and>
          (\<forall>(b, cb) \<in> set (components w).
              name c \<notin> set (dependencies cb) \<and> name c \<notin> set (outputs cb))
          \<longrightarrow> mirrored (components (snd (add_component c w))))"
  using assms
  by (auto simp: connect_components_def remove_component_def add_component_def Let_def
        update_execution_order_components
        intro!: mirrored_connect mirrored_delete mirrored_update)

theorem mirrored_preserved_witness:
  "distinct (keys (components chain2)) \<and> mirrored (components chain2) \<and>
   mirrored (components (snd (connect_components ''B'' ''A'' chain2))) \<and>
   mirrored (components (snd (remove_component ''A'' chain2))) \<and>
   mirrored (components (snd (add_component (succeeding ''C'' 3) chain2)))"
proof -
  have d: "distinct (keys (components chain2))" by (simp add: chain2_eval keys_def)
  have m: "mirrored (components chain2)"
    by (simp add: chain2_eval mirrored_def eval_simps)
  have f: "dependencies (succeeding ''C'' 3) = [] \<and> outputs (succeeding ''C'' 3) = [] \<and>
          (\<forall>(b, cb) \<in> set (components chain2).
              name (succeeding ''C'' 3) \<notin> set (dependencies cb) \<and>
              name (succeeding ''C'' 3) \<notin> set (outputs cb))"
    by (simp add: chain2_eval eval_simps)
  from mirrored_preserved[OF d m, of "''B''" "''A''" "''A''" "succeeding ''C'' 3"] f d m
  show ?thesis by blast
qed

section \<open>Validation: properties\<close>

lemma validate_configs_pure:
  "\<forall>(n, c) \<in> set comps. snd (validate_config c (config c)) = config c \<Longrightarrow>
     snd (validate_configs comps) = comps"
  by (induction comps) (auto split: prod.splits)

text \<open>
  Claim C9. When every component's \<^verbatim>\<open>validate_config\<close> is pure (it leaves the
  configuration it reads as it was), \<^verbatim>\<open>validate\<close> leaves the whole workflow as it was:
  the component mapping, every edge list and the execution order; and a second call
  returns the same list of problems as the first.
\<close>

theorem validate_idempotent:
  assumes "\<forall>(n, c) \<in> set (components w). snd (validate_config c (config c)) = config c"
  shows "snd (validate w) = w \<and> fst (validate (snd (validate w))) = fst (validate w)"
proof -
  from validate_configs_pure[OF assms] have "snd (validate w) = w"
    by (cases "validate_configs (components w)") (simp add: validate_def)
  then show ?thesis by simp
qed

theorem validate_idempotent_witness:
  "fst (validate (snd (remove_component ''A'' chain2))) =
      [''Component '' @ quoted ''B'' @ '' depends on missing component '' @ quoted ''A''] \<and>
   snd (validate (snd (remove_component ''A'' chain2))) = snd (remove_component ''A'' chain2) \<and>
   fst (validate (snd (validate (snd (remove_component ''A'' chain2))))) =
     fst (validate (snd (remove_component ''A'' chain2)))"
proof -
  let ?w = "snd (remove_component ''A'' chain2)"
  have c: "components ?w = [(''B'', (succeeding ''B'' 2)\<lparr>dependencies := [''A'']\<rparr>)]"
    by (simp add: chain2_eval eval_simps)
  have p: "\<forall>(n, c) \<in> set (components ?w). snd (validate_config c (config c)) = config c"
    unfolding c by (simp add: eval_simps)
  have e: "fst (validate ?w) =
      [''Component '' @ quoted ''B'' @ '' depends on missing component '' @ quoted ''A'']"
    unfolding validate_def c
    by (simp add: missing_dependencies_def missing_dependency_message_def eval_simps)
  from validate_idempotent[OF p] e show ?thesis by blast
qed

section \<open>Failures and exceptions in a run\<close>

text \<open>A call that raises ends the loop with that exception; when the exception is not an
  instance of \<^verbatim>\<open>Exception\<close>, the statuses and the errors are still those the loop began
  with.\<close>

lemma run_loop_raises:
  assumes "run_loop ref s ord = (out, s')"
  shows "rs_calls s' = rs_calls s @ new \<Longrightarrow>
   (n, inp) \<in> set new \<Longrightarrow> exec_of (rs_self s) n = Some ex \<Longrightarrow>
   (ex inp = Raises msg \<longrightarrow> out = Inl (ExceptionRaised msg)) \<and>
   (ex inp = RaisesBaseException msg \<longrightarrow>
      out = Inl (BaseExceptionRaised msg) \<and>
      wr_status (rs_result s') = wr_status (rs_result s) \<and>
      wr_errors (rs_result s') = wr_errors (rs_result s) \<and>
      wf_status (rs_self s') = wf_status (rs_self s))"
  using assms
proof (induction arbitrary: new rule: run_loop_induct)
  case (Nil s)
  then show ?case by simp
next
  case (None s m rest)
  then show ?case by simp
next
  case (Raises s m rest c msg0)
  from Raises.prems(1,2) have "n = m" "inp = prepare_component_inputs c (rs_tables s ref)"
    by auto
  with Raises.hyps Raises.prems(3) show ?case by (auto simp: exec_of_def)
next
  case (RaisesBase s m rest c msg0)
  from RaisesBase.prems(1,2) have "n = m" "inp = prepare_component_inputs c (rs_tables s ref)"
    by auto
  with RaisesBase.hyps RaisesBase.prems(3) show ?case by (auto simp: exec_of_def)
next
  case (Failed s m rest c r)
  from Failed.prems(1,2) have "n = m" "inp = prepare_component_inputs c (rs_tables s ref)"
    by auto
  with Failed.hyps Failed.prems(3) show ?case by (auto simp: exec_of_def)
next
  case (Ok s m rest c r out s')
  from run_loop_calls[OF Ok.hyps(4)] obtain new' where
    new': "rs_calls s' = (rs_calls s @ [(m, prepare_component_inputs c (rs_tables s ref))]) @ new'"
    by auto
  with Ok.prems(1) have new: "new = (m, prepare_component_inputs c (rs_tables s ref)) # new'"
    by simp
  show ?case
  proof (cases "(n, inp) \<in> set new'")
    case True
    from Ok.IH[of new'] new' True Ok.prems(3) show ?thesis by simp
  next
    case False
    with new Ok.prems(2) have "n = m" "inp = prepare_component_inputs c (rs_tables s ref)" by auto
    with Ok.hyps(1,2) Ok.prems(3) show ?thesis by (auto simp: exec_of_def)
  qed
qed

text \<open>
  Claim C4, as stated, fails. In the graph where \<open>A\<close> feeds \<open>B\<close> and \<open>A\<close>'s \<^verbatim>\<open>execute\<close>
  raises \<^verbatim>\<open>asyncio.CancelledError\<close>, which is not an instance of \<^verbatim>\<open>Exception\<close>, the call
  is made and the exception propagates out of \<^verbatim>\<open>execute\<close>: no result is returned, and the
  local result object still has status running and no errors.
\<close>

theorem execute_catches_exception_counterexample:
  "(''A'', []) \<in> set (rs_calls (execute cancelled_chain None)) \<and>
   execute_impl (cancelled ''A'' ''stop'') [] = RaisesBaseException ''stop'' \<and>
   rs_propagated (execute cancelled_chain None) = Some ''stop'' \<and>
   wr_status (rs_result (execute cancelled_chain None)) = WF_RUNNING \<and>
   wr_errors (rs_result (execute cancelled_chain None)) = [] \<and>
   wf_status (rs_self (execute cancelled_chain None)) = WF_RUNNING"
  by (simp add: cancelled_chain_def execute_def initial_run_state_def truthy_def
        set_running_def record_result_def store_output_def prepare_component_inputs_def
        update_execution_order_def add_component_def connect_components_def keys_def
        Workflow_init_def succeeding_def cancelled_def Component_init_def add_dependency_def
        add_output_def visit.simps Let_def)

text \<open>
  Claim C4, amended. If during a run a step's \<^verbatim>\<open>execute\<close> is called and raises an
  exception that is an instance of \<^verbatim>\<open>Exception\<close>, with message \<open>msg\<close>, no exception leaves
  \<^verbatim>\<open>execute\<close>: it returns a result whose status is failed and whose errors contain \<open>msg\<close>
  (and the workflow's own status is failed). If the exception is not an instance of
  \<^verbatim>\<open>Exception\<close>, it leaves \<^verbatim>\<open>execute\<close>, and the statuses of the workflow and of the
  result object stay running.
\<close>

theorem execute_catches_exception:
  assumes "map_of (components w) n = Some c"
    and "(n, inp) \<in> set (rs_calls (execute w initial_inputs))"
  shows "(execute_impl c inp = Raises msg \<longrightarrow>
            rs_propagated (execute w initial_inputs) = None \<and>
            wr_status (rs_result (execute w initial_inputs)) = WF_FAILED \<and>
            msg \<in> set (wr_errors (rs_result (execute w initial_inputs))) \<and>
            wf_status (rs_self (execute w initial_inputs)) = WF_FAILED) \<and>
         (execute_impl c inp = RaisesBaseException msg \<longrightarrow>
            rs_propagated (execute w initial_inputs) = Some msg \<and>
            wr_status (rs_result (execute w initial_inputs)) = WF_RUNNING \<and>
            wf_status (rs_self (execute w initial_inputs)) = WF_RUNNING)"
proof -
  let ?ref = "if truthy initial_inputs then CallerTable else FreshTable"
  let ?s0 = "initial_run_state w initial_inputs"
  obtain out s' where rl: "run_loop ?ref ?s0 (execution_order w) = (out, s')"
    by (cases "run_loop ?ref ?s0 (execution_order w)") blast
  from run_loop_calls[OF rl] obtain new where new: "rs_calls s' = rs_calls ?s0 @ new" by blast
  then have "rs_calls s' = new" by (simp add: initial_run_state_def)
  with execute_calls(1)[OF rl] assms(2) have mem: "(n, inp) \<in> set new" by simp
  have ex: "exec_of (rs_self ?s0) n = Some (execute_impl c)"
    using assms(1) by (simp add: initial_run_state_def exec_of_def)
  from run_loop_propagated[OF rl] have p: "rs_propagated s' = None"
    by (simp add: initial_run_state_def)
  note raised = run_loop_raises[OF rl new mem ex, of msg]
  show ?thesis
  proof (intro conjI impI)
    assume "execute_impl c inp = Raises msg"
    with raised have out: "out = Inl (ExceptionRaised msg)" by blast
    show "rs_propagated (execute w initial_inputs) = None"
      unfolding execute_unfold[OF rl] using out p by simp
    show "wr_status (rs_result (execute w initial_inputs)) = WF_FAILED"
      unfolding execute_unfold[OF rl] using out by simp
    show "msg \<in> set (wr_errors (rs_result (execute w initial_inputs)))"
      unfolding execute_unfold[OF rl] using out by simp
    show "wf_status (rs_self (execute w initial_inputs)) = WF_FAILED"
      unfolding execute_unfold[OF rl] using out by simp
  next
    assume "execute_impl c inp = RaisesBaseException msg"
    with raised have out: "out = Inl (BaseExceptionRaised msg)"
      and st: "wr_status (rs_result s') = wr_status (rs_result ?s0)"
        "wf_status (rs_self s') = wf_status (rs_self ?s0)" by blast+
    show "rs_propagated (execute w initial_inputs) = Some msg"
      unfolding execute_unfold[OF rl] using out by simp
    show "wr_status (rs_result (execute w initial_inputs)) = WF_RUNNING"
      unfolding execute_unfold[OF rl] using out st by (simp add: initial_run_state_def)
    show "wf_status (rs_self (execute w initial_inputs)) = WF_RUNNING"
      unfolding execute_unfold[OF rl] using out st by (simp add: initial_run_state_def)
  qed
qed




text \<open>What the loop does to the store of output tables.\<close>

lemma run_loop_tables:
  assumes "run_loop ref s ord = (out, s')"
  shows "(\<forall>r. r \<noteq> ref \<longrightarrow> rs_tables s' r = rs_tables s r) \<and>
         set (keys (component_results (rs_result s)))
           \<subseteq> set (keys (component_results (rs_result s'))) \<and>
         (\<forall>k. map_of (component_results (rs_result s')) k = None \<longrightarrow>
              map_of (rs_tables s' ref) k = map_of (rs_tables s ref) k) \<and>
         ((\<forall>n r. map_of (component_results (rs_result s)) n = Some r \<and> res_status r \<noteq> FAILED \<longrightarrow>
              map_of (rs_tables s ref) n = Some (res_data r)) \<longrightarrow>
          (\<forall>n r. map_of (component_results (rs_result s')) n = Some r \<and> res_status r \<noteq> FAILED \<longrightarrow>
              map_of (rs_tables s' ref) n = Some (res_data r)))"
  using assms
proof (induction rule: run_loop_induct)
  case (Nil s)
  show ?case by simp
next
  case (None s m rest)
  show ?case by simp
next
  case (Raises s m rest c msg)
  show ?case by simp
next
  case (RaisesBase s m rest c msg)
  show ?case by simp
next
  case (Failed s m rest c r)
  then show ?case by (auto simp: keys_def dom_update update_conv')
next
  case (Ok s m rest c r out s')
  let ?mid = "recorded_ok ref m r (called ref m c s)"
  from Ok.IH have f: "\<forall>r. r \<noteq> ref \<longrightarrow> rs_tables s' r = rs_tables ?mid r"
    and mono: "set (keys (component_results (rs_result ?mid)))
           \<subseteq> set (keys (component_results (rs_result s')))"
    and keep: "\<forall>k. map_of (component_results (rs_result s')) k = None \<longrightarrow>
              map_of (rs_tables s' ref) k = map_of (rs_tables ?mid ref) k"
    and inv: "(\<forall>n r. map_of (component_results (rs_result ?mid)) n = Some r \<and> res_status r \<noteq> FAILED \<longrightarrow>
              map_of (rs_tables ?mid ref) n = Some (res_data r)) \<longrightarrow>
          (\<forall>n r. map_of (component_results (rs_result s')) n = Some r \<and> res_status r \<noteq> FAILED \<longrightarrow>
              map_of (rs_tables s' ref) n = Some (res_data r))"
    by blast+
  have midres: "map_of (component_results (rs_result ?mid)) =
      (map_of (component_results (rs_result s)))(m \<mapsto> r)"
    by (simp add: update_conv')
  have midtab: "map_of (rs_tables ?mid ref) = (map_of (rs_tables s ref))(m \<mapsto> res_data r)"
    by (simp add: store_output_def update_conv')
  have midkeys: "set (keys (component_results (rs_result ?mid))) =
      insert m (set (keys (component_results (rs_result s))))"
    by (simp add: keys_def dom_update)
  have 1: "\<forall>r. r \<noteq> ref \<longrightarrow> rs_tables s' r = rs_tables s r"
    using f by (simp add: store_output_def)
  have 2: "set (keys (component_results (rs_result s)))
           \<subseteq> set (keys (component_results (rs_result s')))"
    using mono midkeys by auto
  have 3: "\<forall>k. map_of (component_results (rs_result s')) k = None \<longrightarrow>
              map_of (rs_tables s' ref) k = map_of (rs_tables s ref) k"
  proof (intro allI impI)
    fix k assume n: "map_of (component_results (rs_result s')) k = None"
    then have "k \<notin> set (keys (component_results (rs_result s')))"
      by (simp add: keys_def map_of_eq_None_iff)
    with mono midkeys have "k \<noteq> m" by auto
    with keep n midtab show "map_of (rs_tables s' ref) k = map_of (rs_tables s ref) k"
      by simp
  qed
  have 4: "(\<forall>n r. map_of (component_results (rs_result s)) n = Some r \<and> res_status r \<noteq> FAILED \<longrightarrow>
              map_of (rs_tables s ref) n = Some (res_data r)) \<longrightarrow>
          (\<forall>n r. map_of (component_results (rs_result s')) n = Some r \<and> res_status r \<noteq> FAILED \<longrightarrow>
              map_of (rs_tables s' ref) n = Some (res_data r))"
  proof
    assume a: "\<forall>n r. map_of (component_results (rs_result s)) n = Some r \<and> res_status r \<noteq> FAILED \<longrightarrow>
              map_of (rs_tables s ref) n = Some (res_data r)"
    have "\<forall>n r. map_of (component_results (rs_result ?mid)) n = Some r \<and> res_status r \<noteq> FAILED \<longrightarrow>
              map_of (rs_tables ?mid ref) n = Some (res_data r)"
      unfolding midres midtab using a by auto
    with inv show "\<forall>n r. map_of (component_results (rs_result s')) n = Some r \<and> res_status r \<noteq> FAILED \<longrightarrow>
              map_of (rs_tables s' ref) n = Some (res_data r)" by blast
  qed
  from 1 2 3 4 show ?case by blast
qed

text \<open>
  Claim C10. When \<^verbatim>\<open>initial_inputs\<close> is given and not empty, the caller's dictionary
  is the run's output table: after the run it binds the name of every step that has a
  recorded result other than failed to that result's data, and is as before on every name
  with no recorded result. When \<^verbatim>\<open>initial_inputs\<close> is omitted or empty, the caller's
  dictionary (if any) is as before, and the outputs are in a table that started empty.
  (The objects in question are the dictionaries; the status fields of the workflow and
  of the steps called are set by every run.)
\<close>

theorem execute_output_table:
  "(truthy initial_inputs \<longrightarrow>
      (\<exists>m m'. initial_inputs = Some m \<and>
         caller_inputs_after initial_inputs (execute w initial_inputs) = Some m' \<and>
         (\<forall>n r. map_of (component_results (rs_result (execute w initial_inputs))) n = Some r \<and>
                 res_status r \<noteq> FAILED \<longrightarrow> map_of m' n = Some (res_data r)) \<and>
         (\<forall>k. map_of (component_results (rs_result (execute w initial_inputs))) k = None \<longrightarrow>
                 map_of m' k = map_of m k))) \<and>
   (\<not> truthy initial_inputs \<longrightarrow>
      caller_inputs_after initial_inputs (execute w initial_inputs) = initial_inputs \<and>
      (\<forall>n r. map_of (component_results (rs_result (execute w initial_inputs))) n = Some r \<and>
              res_status r \<noteq> FAILED \<longrightarrow>
              map_of (rs_tables (execute w initial_inputs) FreshTable) n = Some (res_data r)) \<and>
      (\<forall>k. map_of (component_results (rs_result (execute w initial_inputs))) k = None \<longrightarrow>
              map_of (rs_tables (execute w initial_inputs) FreshTable) k = None))"
proof -
  let ?ref = "if truthy initial_inputs then CallerTable else FreshTable"
  let ?s0 = "initial_run_state w initial_inputs"
  obtain out s' where rl: "run_loop ?ref ?s0 (execution_order w) = (out, s')"
    by (cases "run_loop ?ref ?s0 (execution_order w)") blast
  note ex = execute_calls[OF rl]
  from run_loop_tables[OF rl]
  have frame: "\<forall>r. r \<noteq> ?ref \<longrightarrow> rs_tables s' r = rs_tables ?s0 r"
    and keep: "\<forall>k. map_of (component_results (rs_result s')) k = None \<longrightarrow>
              map_of (rs_tables s' ?ref) k = map_of (rs_tables ?s0 ?ref) k"
    and inv: "(\<forall>n r. map_of (component_results (rs_result ?s0)) n = Some r \<and> res_status r \<noteq> FAILED \<longrightarrow>
              map_of (rs_tables ?s0 ?ref) n = Some (res_data r)) \<longrightarrow>
          (\<forall>n r. map_of (component_results (rs_result s')) n = Some r \<and> res_status r \<noteq> FAILED \<longrightarrow>
              map_of (rs_tables s' ?ref) n = Some (res_data r))"
    by blast+
  have "\<forall>n r. map_of (component_results (rs_result ?s0)) n = Some r \<and> res_status r \<noteq> FAILED \<longrightarrow>
              map_of (rs_tables ?s0 ?ref) n = Some (res_data r)"
    by (simp add: initial_run_state_def)
  with inv have fin: "\<forall>n r. map_of (component_results (rs_result s')) n = Some r \<and> res_status r \<noteq> FAILED \<longrightarrow>
              map_of (rs_tables s' ?ref) n = Some (res_data r)" by blast
  show ?thesis
  proof (cases "truthy initial_inputs")
    case True
    then obtain m where m: "initial_inputs = Some m"
      by (cases initial_inputs) (auto simp: truthy_def)
    have t0: "rs_tables ?s0 CallerTable = m" by (simp add: initial_run_state_def m)
    show ?thesis unfolding caller_inputs_after_def ex
      using True fin keep t0 m by simp
  next
    case False
    from False frame have "rs_tables s' CallerTable = rs_tables ?s0 CallerTable" by simp
    then have "rs_tables (execute w initial_inputs) CallerTable = rs_tables ?s0 CallerTable"
      unfolding ex .
    then have c: "caller_inputs_after initial_inputs (execute w initial_inputs) = initial_inputs"
      using False
      by (cases initial_inputs) (auto simp: caller_inputs_after_def initial_run_state_def truthy_def)
    have t0: "rs_tables ?s0 FreshTable = []" by (simp add: initial_run_state_def)
    show ?thesis unfolding c unfolding ex
      using False fin keep t0 by simp
  qed
qed

section \<open>The inputs a step is passed\<close>

text \<open>What the loop logs about its input resolutions: they are the calls made, the tables
  are the output table as the run builds it, and every input mapping is built from the
  table logged with it and the dependencies of the step.\<close>

lemma run_loop_resolved:
  assumes "run_loop ref s ord = (out, s')"
  shows "\<exists>new. rs_resolved s' = rs_resolved s @ new \<and>
           rs_calls s' = rs_calls s @ map (\<lambda>(n, table, inputs). (n, inputs)) new \<and>
           tables_chain (exec_of (rs_self s)) (rs_tables s ref) new \<and>
           (\<forall>(n, table, inputs) \<in> set new.
               \<exists>ds. map_option dependencies (map_of (components (rs_self s)) n) = Some ds \<and>
                    inputs = collect_inputs table [] ds)"
  using assms
proof (induction rule: run_loop_induct)
  case (Nil s)
  show ?case by (rule exI[of _ "[]"]) simp
next
  case (None s m rest)
  show ?case by (rule exI[of _ "[]"]) simp
next
  case (Raises s m rest c msg)
  then show ?case
    by (intro exI[of _ "[(m, rs_tables s ref, prepare_component_inputs c (rs_tables s ref))]"])
       (simp add: prepare_component_inputs_def)
next
  case (RaisesBase s m rest c msg)
  then show ?case
    by (intro exI[of _ "[(m, rs_tables s ref, prepare_component_inputs c (rs_tables s ref))]"])
       (simp add: prepare_component_inputs_def)
next
  case (Failed s m rest c r)
  then show ?case
    by (intro exI[of _ "[(m, rs_tables s ref, prepare_component_inputs c (rs_tables s ref))]"])
       (simp add: prepare_component_inputs_def)
next
  case (Ok s m rest c r out s')
  let ?inp = "prepare_component_inputs c (rs_tables s ref)"
  from Ok.IH obtain new where
    res: "rs_resolved s' = (rs_resolved s @ [(m, rs_tables s ref, ?inp)]) @ new"
    and calls: "rs_calls s' = (rs_calls s @ [(m, ?inp)]) @ map (\<lambda>(n, table, inputs). (n, inputs)) new"
    and chain: "tables_chain (exec_of (rs_self s))
                  (AList.update m (res_data r) (rs_tables s ref)) new"
    and deps: "\<forall>(n, table, inputs) \<in> set new.
               \<exists>ds. map_option dependencies (map_of (components (rs_self s)) n) = Some ds \<and>
                    inputs = collect_inputs table [] ds"
    by (auto simp: store_output_def)
  let ?new = "(m, rs_tables s ref, ?inp) # new"
  have 1: "rs_resolved s' = rs_resolved s @ ?new" using res by simp
  have 2: "rs_calls s' = rs_calls s @ map (\<lambda>(n, table, inputs). (n, inputs)) ?new"
    using calls by simp
  have "exec_of (rs_self s) m = Some (execute_impl c)"
    using Ok.hyps(1) by (rule exec_of_Some)
  with Ok.hyps(2,3) chain have 3: "tables_chain (exec_of (rs_self s)) (rs_tables s ref) ?new"
    by auto
  have 4: "\<forall>(n, table, inputs) \<in> set ?new.
               \<exists>ds. map_option dependencies (map_of (components (rs_self s)) n) = Some ds \<and>
                    inputs = collect_inputs table [] ds"
    using deps Ok.hyps(1) by (simp add: prepare_component_inputs_def)
  from 1 2 3 4 show ?case by blast
qed

text \<open>
  Claim C7. In every run, each call of a step's \<^verbatim>\<open>execute\<close> is passed the mapping built
  by an input resolution (the two logs agree, call by call), and that mapping binds a name
  exactly when the name is one of the step's dependencies and the output table, as it is
  at that moment, has an entry for it, and binds it to that entry's value; a dependency
  without an entry is left out (no error, no placeholder). The table at the first call is
  the initial one, and at each later call it is the table of the call before with the data
  that step returned stored under its name.
\<close>

theorem execute_inputs_resolved:
  "map (\<lambda>(n, table, inputs). (n, inputs)) (rs_resolved (execute w initial_inputs)) =
     rs_calls (execute w initial_inputs) \<and>
   tables_chain (exec_of w) (case initial_inputs of None \<Rightarrow> [] | Some m \<Rightarrow> m)
     (rs_resolved (execute w initial_inputs)) \<and>
   (\<forall>(n, table, inputs) \<in> set (rs_resolved (execute w initial_inputs)).
      \<exists>c. map_of (components w) n = Some c \<and>
          (\<forall>k. map_of inputs k =
                 (if k \<in> set (dependencies c) then map_of table k else None)))"
proof -
  let ?ref = "if truthy initial_inputs then CallerTable else FreshTable"
  let ?s0 = "initial_run_state w initial_inputs"
  obtain out s' where rl: "run_loop ?ref ?s0 (execution_order w) = (out, s')"
    by (cases "run_loop ?ref ?s0 (execution_order w)") blast
  note ex = execute_calls[OF rl]
  have t0: "rs_tables ?s0 ?ref = (case initial_inputs of None \<Rightarrow> [] | Some m \<Rightarrow> m)"
    by (cases initial_inputs) (auto simp: initial_run_state_def truthy_def)
  from run_loop_resolved[OF rl] obtain new where
    res: "rs_resolved s' = rs_resolved ?s0 @ new"
    and calls: "rs_calls s' = rs_calls ?s0 @ map (\<lambda>(n, table, inputs). (n, inputs)) new"
    and chain: "tables_chain (exec_of (rs_self ?s0)) (rs_tables ?s0 ?ref) new"
    and deps: "\<forall>(n, table, inputs) \<in> set new.
               \<exists>ds. map_option dependencies (map_of (components (rs_self ?s0)) n) = Some ds \<and>
                    inputs = collect_inputs table [] ds"
    by blast
  from res have r: "rs_resolved s' = new" by (simp add: initial_run_state_def)
  from calls have c: "rs_calls s' = map (\<lambda>(n, table, inputs). (n, inputs)) new"
    by (simp add: initial_run_state_def)
  from chain have ch: "tables_chain (exec_of w) (case initial_inputs of None \<Rightarrow> [] | Some m \<Rightarrow> m) new"
    unfolding t0 by (simp add: initial_run_state_def)
  have d: "\<forall>(n, table, inputs) \<in> set new.
      \<exists>c. map_of (components w) n = Some c \<and>
          (\<forall>k. map_of inputs k =
                 (if k \<in> set (dependencies c) then map_of table k else None))"
  proof (clarify)
    fix n table inputs
    assume "(n, table, inputs) \<in> set new"
    with deps obtain ds where
      ds: "map_option dependencies (map_of (components (rs_self ?s0)) n) = Some ds"
      and i: "inputs = collect_inputs table [] ds" by blast
    from ds obtain c where c: "map_of (components w) n = Some c" and "dependencies c = ds"
      by (auto simp: initial_run_state_def)
    with i have "inputs = prepare_component_inputs c table"
      by (simp add: prepare_component_inputs_def)
    with c show "\<exists>c. map_of (components w) n = Some c \<and>
          (\<forall>k. map_of inputs k =
                 (if k \<in> set (dependencies c) then map_of table k else None))"
      by (auto simp: map_of_prepare_component_inputs)
  qed
  from r c ch d show ?thesis unfolding ex by simp
qed

section \<open>Runs of the sample graphs\<close>



lemma raising_chain_eval:
  "components raising_chain =
     [(''A'', (raising ''A'' ''boom'')\<lparr>outputs := [''B'']\<rparr>),
      (''B'', (succeeding ''B'' 2)\<lparr>dependencies := [''A'']\<rparr>)]"
  "execution_order raising_chain = [''A'', ''B'']"
  by (simp_all add: raising_chain_def eval_simps)

lemmas run_simps = execute_def initial_run_state_def truthy_def set_running_def
  record_result_def store_output_def prepare_component_inputs_def caller_inputs_after_def


lemma raising_chain_calls: "rs_calls (execute raising_chain None) = [(''A'', [])]"
  by (simp add: run_simps raising_chain_eval eval_simps)

theorem execute_catches_exception_witness:
  "(''A'', []) \<in> set (rs_calls (execute raising_chain None)) \<and>
   rs_propagated (execute raising_chain None) = None \<and>
   wr_status (rs_result (execute raising_chain None)) = WF_FAILED \<and>
   ''boom'' \<in> set (wr_errors (rs_result (execute raising_chain None)))"
proof -
  have c: "map_of (components raising_chain) ''A'' = Some ((raising ''A'' ''boom'')\<lparr>outputs := [''B'']\<rparr>)"
    by (simp add: raising_chain_eval)
  have i: "(''A'', []) \<in> set (rs_calls (execute raising_chain None))"
    by (simp add: raising_chain_calls)
  have e: "execute_impl ((raising ''A'' ''boom'')\<lparr>outputs := [''B'']\<rparr>) [] = Raises ''boom''"
    by (simp add: eval_simps)
  from execute_catches_exception[OF c i, of "''boom''"] e i show ?thesis by blast
qed


theorem execute_output_table_witness:
  "caller_inputs_after (Some [(''seed'', 7)]) (execute chain2 (Some [(''seed'', 7)])) =
     Some [(''seed'', 7), (''A'', 1), (''B'', 2)] \<and>
   caller_inputs_after (Some []) (execute chain2 (Some [])) = Some [] \<and>
   caller_inputs_after None (execute chain2 None) = None"
proof -
  have t: "truthy (Some [(''seed'', 7::nat)])" and f: "\<not> truthy (Some ([] :: nat dict))"
    and n: "\<not> truthy (None :: nat dict option)"
    by (simp_all add: truthy_def)
  from execute_output_table[of "Some []" chain2] f
  have 1: "caller_inputs_after (Some []) (execute chain2 (Some [])) = Some []" by blast
  from execute_output_table[of None chain2] n
  have 2: "caller_inputs_after None (execute chain2 None) = None" by blast
  have r: "component_results (rs_result (execute chain2 (Some [(''seed'', 7)]))) =
     [(''A'', \<lparr>res_status = COMPLETED, res_data = 1, res_metadata = [], res_errors = []\<rparr>),
      (''B'', \<lparr>res_status = COMPLETED, res_data = 2, res_metadata = [], res_errors = []\<rparr>)]"
    by (simp add: run_simps chain2_eval eval_simps)
  have k: "map fst (rs_tables (execute chain2 (Some [(''seed'', 7)])) CallerTable) = [''seed'', ''A'', ''B'']"
    by (simp add: run_simps chain2_eval eval_simps)
  from execute_output_table[of "Some [(''seed'', 7)]" chain2] t
  obtain m' where m': "caller_inputs_after (Some [(''seed'', 7)]) (execute chain2 (Some [(''seed'', 7)])) = Some m'"
    and comp: "\<forall>n r. map_of (component_results (rs_result (execute chain2 (Some [(''seed'', 7)])))) n = Some r \<and>
                 res_status r \<noteq> FAILED \<longrightarrow> map_of m' n = Some (res_data r)"
    and keep: "\<forall>k. map_of (component_results (rs_result (execute chain2 (Some [(''seed'', 7)])))) k = None \<longrightarrow>
                 map_of m' k = map_of [(''seed'', 7)] k"
    by auto
  from m' k have mk: "map fst m' = [''seed'', ''A'', ''B'']" by (simp add: caller_inputs_after_def)
  from comp[rule_format, of "''A''"
      "\<lparr>res_status = COMPLETED, res_data = 1, res_metadata = [], res_errors = []\<rparr>"] r
  have "map_of m' ''A'' = Some 1" by simp
  moreover from comp[rule_format, of "''B''"
      "\<lparr>res_status = COMPLETED, res_data = 2, res_metadata = [], res_errors = []\<rparr>"] r
  have "map_of m' ''B'' = Some 2" by simp
  moreover from keep[rule_format, of "''seed''"] r have "map_of m' ''seed'' = Some 7" by simp
  ultimately have "m' = [(''seed'', 7), (''A'', 1), (''B'', 2)]" using mk
    by (auto simp: map_eq_Cons_conv)
  with m' 1 2 show ?thesis by simp
qed

section \<open>A chain of three steps\<close>

lemma only_order_of_chain:
  assumes d: "distinct xs" and s: "set xs = {a, b, c}" and ne: "a \<noteq> b" "b \<noteq> c" "a \<noteq> c"
    and ab: "appears_before a b xs" and bc: "appears_before b c xs"
  shows "xs = [a, b, c]"
proof -
  from d have "length xs = card (set xs)" by (simp add: distinct_card)
  with s ne have "length xs = 3" by simp
  then obtain x y z where xs: "xs = [x, y, z]"
    by (auto simp: length_Suc_conv numeral_3_eq_3)
  from ab bc ne show ?thesis unfolding xs
    by (auto split: if_splits)
qed

lemma run_loop_chain3:
  assumes ne: "a \<noteq> b" "b \<noteq> c" "a \<noteq> c"
    and ca: "map_of (components (rs_self s)) a = Some ca" "dependencies ca = []"
    and cb: "map_of (components (rs_self s)) b = Some cb" "dependencies cb = [a]"
    and cc: "map_of (components (rs_self s)) c = Some cc" "dependencies cc = [b]"
    and ra: "execute_impl ca [] = Returns ra" "res_status ra \<noteq> FAILED"
    and rb: "execute_impl cb [(a, res_data ra)] = Returns rb" "res_status rb \<noteq> FAILED"
    and rc: "execute_impl cc [(b, res_data rb)] = Returns rc" "res_status rc \<noteq> FAILED"
  shows "\<exists>s'. run_loop ref s [a, b, c] = (Inr (), s') \<and>
           rs_calls s' = rs_calls s @ [(a, []), (b, [(a, res_data ra)]), (c, [(b, res_data rb)])] \<and>
           component_results (rs_result s') =
             AList.update c rc (AList.update b rb (AList.update a ra
               (component_results (rs_result s)))) \<and>
           wr_errors (rs_result s') = wr_errors (rs_result s) \<and>
           wf_status (rs_self s') = wf_status (rs_self s) \<and>
           rs_propagated s' = rs_propagated s"
  using assms
  by (simp add: Let_def map_of_set_running prepare_component_inputs_def record_result_def
        store_output_def update_conv')

text \<open>
  Claim C8. In a graph reached by graph operations that returned normally (and by
  earlier runs), made of three steps \<open>a\<close>, \<open>b\<close>, \<open>c\<close> where \<open>a\<close> has no dependency,
  \<open>b\<close> depends on \<open>a\<close> and \<open>c\<close> on \<open>b\<close>, and where every \<^verbatim>\<open>execute\<close> returns a result
  that is not failed: the run calls \<open>a\<close>, \<open>b\<close>, \<open>c\<close> in this order, \<open>b\<close> receiving exactly
  \<open>a\<close>'s data under the key \<open>a\<close> and \<open>c\<close> exactly \<open>b\<close>'s data under the key \<open>b\<close>; the
  run's status is completed, its results are those of \<open>a\<close>, \<open>b\<close> and \<open>c\<close> and no other,
  its errors are empty, and no exception leaves \<^verbatim>\<open>execute\<close>.
\<close>

theorem execute_chain3:
  assumes r: "reachable w"
    and ks: "set (keys (components w)) = {a, b, c}" and ne: "a \<noteq> b" "b \<noteq> c" "a \<noteq> c"
    and ca: "map_of (components w) a = Some ca" "dependencies ca = []"
    and cb: "map_of (components w) b = Some cb" "dependencies cb = [a]"
    and cc: "map_of (components w) c = Some cc" "dependencies cc = [b]"
    and oka: "\<forall>inp. \<exists>r. execute_impl ca inp = Returns r \<and> res_status r \<noteq> FAILED"
    and okb: "\<forall>inp. \<exists>r. execute_impl cb inp = Returns r \<and> res_status r \<noteq> FAILED"
    and okc: "\<forall>inp. \<exists>r. execute_impl cc inp = Returns r \<and> res_status r \<noteq> FAILED"
  shows "\<exists>ra rb rc.
           execute_impl ca [] = Returns ra \<and>
           execute_impl cb [(a, res_data ra)] = Returns rb \<and>
           execute_impl cc [(b, res_data rb)] = Returns rc \<and>
           rs_calls (execute w initial_inputs) =
             [(a, []), (b, [(a, res_data ra)]), (c, [(b, res_data rb)])] \<and>
           wr_status (rs_result (execute w initial_inputs)) = WF_COMPLETED \<and>
           component_results (rs_result (execute w initial_inputs)) = [(a, ra), (b, rb), (c, rc)] \<and>
           wr_errors (rs_result (execute w initial_inputs)) = [] \<and>
           rs_propagated (execute w initial_inputs) = None"
proof -
  from oka obtain ra where ra: "execute_impl ca [] = Returns ra" "res_status ra \<noteq> FAILED"
    by blast
  from okb obtain rb where rb: "execute_impl cb [(a, res_data ra)] = Returns rb"
    "res_status rb \<noteq> FAILED" by blast
  from okc obtain rc where rc: "execute_impl cc [(b, res_data rb)] = Returns rc"
    "res_status rc \<noteq> FAILED" by blast
  from reachable_invariant[OF r] have d: "distinct (keys (components w))"
    and ms: "mset (execution_order w) = mset (keys (components w))"
    and top: "topological (components w) (execution_order w)" by auto
  from ms d have dord: "distinct (execution_order w)"
    by (metis distinct_count_atmost_1 set_mset_mset)
  from ms have sord: "set (execution_order w) = {a, b, c}"
    using ks by (metis set_mset_mset)
  from ks have "a \<in> set (keys (components w))" "b \<in> set (keys (components w))" by auto
  with top ca cb cc have "appears_before a b (execution_order w)"
    "appears_before b c (execution_order w)" by (auto simp: topological_def)
  from only_order_of_chain[OF dord sord ne this] have ord: "execution_order w = [a, b, c]" .
  let ?ref = "if truthy initial_inputs then CallerTable else FreshTable"
  let ?s0 = "initial_run_state w initial_inputs"
  have c0: "components (rs_self ?s0) = components w" by (simp add: initial_run_state_def)
  from run_loop_chain3[of a b c ?s0 ca cb cc ra rb rc ?ref] ne ca cb cc ra rb rc
  obtain s' where rl: "run_loop ?ref ?s0 (execution_order w) = (Inr (), s')"
    and calls: "rs_calls s' = rs_calls ?s0 @ [(a, []), (b, [(a, res_data ra)]), (c, [(b, res_data rb)])]"
    and res: "component_results (rs_result s') =
             AList.update c rc (AList.update b rb (AList.update a ra
               (component_results (rs_result ?s0))))"
    and errs: "wr_errors (rs_result s') = wr_errors (rs_result ?s0)"
    and st: "wf_status (rs_self s') = wf_status (rs_self ?s0)"
    and pr: "rs_propagated s' = rs_propagated ?s0"
    unfolding ord c0 by blast
  from st have run: "wf_status (rs_self s') = WF_RUNNING" by (simp add: initial_run_state_def)
  have e: "execute w initial_inputs =
      s'\<lparr>rs_self := (rs_self s')\<lparr>wf_status := WF_COMPLETED\<rparr>,
         rs_result := (rs_result s')\<lparr>wr_status := WF_COMPLETED\<rparr>\<rparr>"
    unfolding execute_unfold[OF rl] using run by simp
  from ne have "component_results (rs_result s') = [(a, ra), (b, rb), (c, rc)]"
    unfolding res by (simp add: initial_run_state_def)
  with calls errs pr ra rb rc show ?thesis unfolding e
    by (simp add: initial_run_state_def)
qed

lemma reachable_chain3: "reachable chain3"
proof -
  let ?w0 = "Workflow_init ''w'' :: (nat, unit) Workflow"
  let ?w1 = "snd (add_component (succeeding ''A'' 1) ?w0)"
  let ?w2 = "snd (add_component (succeeding ''B'' 2) ?w1)"
  let ?w3 = "snd (add_component (succeeding ''C'' 3) ?w2)"
  let ?w4 = "snd (connect_components ''A'' ''B'' ?w3)"
  have r0: "reachable ?w0" by (rule reachable_init)
  have "fst (add_component (succeeding ''A'' 1) ?w0) = Inr ()" by (simp add: eval_simps)
  from reachable_add[OF r0 returned_normally[OF this]] have r1: "reachable ?w1" .
  have "fst (add_component (succeeding ''B'' 2) ?w1) = Inr ()" by (simp add: eval_simps)
  from reachable_add[OF r1 returned_normally[OF this]] have r2: "reachable ?w2" .
  have "fst (add_component (succeeding ''C'' 3) ?w2) = Inr ()" by (simp add: eval_simps)
  from reachable_add[OF r2 returned_normally[OF this]] have r3: "reachable ?w3" .
  have "fst (connect_components ''A'' ''B'' ?w3) = Inr ()" by (simp add: eval_simps)
  from reachable_connect[OF r3 returned_normally[OF this]] have r4: "reachable ?w4" .
  have "fst (connect_components ''B'' ''C'' ?w4) = Inr ()" by (simp add: eval_simps)
  from reachable_connect[OF r4 returned_normally[OF this]] show ?thesis
    by (simp add: chain3_def)
qed

lemma chain3_eval:
  "components chain3 =
     [(''A'', (succeeding ''A'' 1)\<lparr>outputs := [''B'']\<rparr>),
      (''B'', (succeeding ''B'' 2)\<lparr>dependencies := [''A''], outputs := [''C'']\<rparr>),
      (''C'', (succeeding ''C'' 3)\<lparr>dependencies := [''B'']\<rparr>)]"
  by (simp add: chain3_def eval_simps)

theorem execute_chain3_witness:
  "reachable chain3 \<and>
   rs_calls (execute chain3 None) = [(''A'', []), (''B'', [(''A'', 1)]), (''C'', [(''B'', 2)])] \<and>
   wr_status (rs_result (execute chain3 None)) = WF_COMPLETED \<and>
   keys (component_results (rs_result (execute chain3 None))) = [''A'', ''B'', ''C'']"
proof -
  let ?ca = "(succeeding ''A'' 1)\<lparr>outputs := [''B'']\<rparr>"
  let ?cb = "(succeeding ''B'' 2)\<lparr>dependencies := [''A''], outputs := [''C'']\<rparr>"
  let ?cc = "(succeeding ''C'' 3)\<lparr>dependencies := [''B'']\<rparr>"
  have ks: "set (keys (components chain3)) = {''A'', ''B'', ''C''}"
    by (simp add: chain3_eval keys_def)
  have ne: "''A'' \<noteq> ''B''" "''B'' \<noteq> ''C''" "''A'' \<noteq> ''C''" by simp_all
  have ca: "map_of (components chain3) ''A'' = Some ?ca" "dependencies ?ca = []"
    by (simp_all add: chain3_eval eval_simps)
  have cb: "map_of (components chain3) ''B'' = Some ?cb" "dependencies ?cb = [''A'']"
    by (simp_all add: chain3_eval eval_simps)
  have cc: "map_of (components chain3) ''C'' = Some ?cc" "dependencies ?cc = [''B'']"
    by (simp_all add: chain3_eval eval_simps)
  have ok: "\<forall>inp. \<exists>r. execute_impl ?ca inp = Returns r \<and> res_status r \<noteq> FAILED"
    "\<forall>inp. \<exists>r. execute_impl ?cb inp = Returns r \<and> res_status r \<noteq> FAILED"
    "\<forall>inp. \<exists>r. execute_impl ?cc inp = Returns r \<and> res_status r \<noteq> FAILED"
    by (simp_all add: eval_simps)
  from execute_chain3[OF reachable_chain3 ks ne ca cb cc ok, of None]
  obtain ra rb rc where
    "execute_impl ?ca [] = Returns ra" "execute_impl ?cb [(''A'', res_data ra)] = Returns rb"
    and calls: "rs_calls (execute chain3 None) =
             [(''A'', []), (''B'', [(''A'', res_data ra)]), (''C'', [(''B'', res_data rb)])]"
    and st: "wr_status (rs_result (execute chain3 None)) = WF_COMPLETED"
    and res: "component_results (rs_result (execute chain3 None)) =
        [(''A'', ra), (''B'', rb), (''C'', rc)]"
    by blast
  then have "res_data ra = 1" "res_data rb = 2" by (auto simp: eval_simps)
  with calls st res reachable_chain3 show ?thesis by (simp add: keys_def)
qed

section \<open>A run over a dependency that is not there\<close>

lemma chain3_gap_eval:
  "components chain3_gap =
     [(''A'', (succeeding ''A'' 1)\<lparr>outputs := [''B'']\<rparr>),
      (''C'', (succeeding ''C'' 3)\<lparr>dependencies := [''B'']\<rparr>)]"
  "execution_order chain3_gap = [''A'', ''C'']"
  by (simp_all add: chain3_gap_def chain3_eval eval_simps)

lemma chain3_gap_resolved:
  "rs_resolved (execute chain3_gap None) = [(''A'', [], []), (''C'', [(''A'', 1)], [])]"
  by (simp add: run_simps chain3_gap_eval eval_simps)

theorem execute_inputs_resolved_witness:
  "rs_calls (execute chain3_gap None) = [(''A'', []), (''C'', [])] \<and>
   (''C'', [(''A'', 1)], []) \<in> set (rs_resolved (execute chain3_gap None)) \<and>
   (\<exists>c. map_of (components chain3_gap) ''C'' = Some c \<and>
        map_of [] ''B'' =
          (if ''B'' \<in> set (dependencies c) then map_of [(''A'', 1::nat)] ''B'' else None))"
proof -
  note C7 = execute_inputs_resolved[of chain3_gap None]
  from C7 have "map (\<lambda>(n, table, inputs). (n, inputs)) (rs_resolved (execute chain3_gap None)) =
     rs_calls (execute chain3_gap None)" by blast
  then have calls: "rs_calls (execute chain3_gap None) = [(''A'', []), (''C'', [])]"
    by (simp add: chain3_gap_resolved)
  have mem: "(''C'', [(''A'', 1)], []) \<in> set (rs_resolved (execute chain3_gap None))"
    by (simp add: chain3_gap_resolved)
  from C7 have "\<forall>(n, table, inputs) \<in> set (rs_resolved (execute chain3_gap None)).
      \<exists>c. map_of (components chain3_gap) n = Some c \<and>
          (\<forall>k. map_of inputs k =
                 (if k \<in> set (dependencies c) then map_of table k else None))" by blast
  from bspec[OF this mem]
  have "\<exists>c. map_of (components chain3_gap) ''C'' = Some c \<and>
          (\<forall>k. map_of ([] :: nat dict) k =
                 (if k \<in> set (dependencies c) then map_of [(''A'', 1)] k else None))"
    by (simp only: prod.case)
  then obtain c where "map_of (components chain3_gap) ''C'' = Some c"
    and "\<forall>k. map_of ([] :: nat dict) k =
                 (if k \<in> set (dependencies c) then map_of [(''A'', 1)] k else None)" by blast
  then have "\<exists>c. map_of (components chain3_gap) ''C'' = Some c \<and>
        map_of [] ''B'' =
          (if ''B'' \<in> set (dependencies c) then map_of [(''A'', 1::nat)] ''B'' else None)"
    by blast
  with calls mem show ?thesis by (intro conjI)
qed

end
